theory Spec2Isabelle
  imports Complex_Main "HOL-Library.Multiset"
begin

section \<open>Gem Garden: the board engine and the level evaluator\<close>

text \<open>
  A shallow embedding of the game logic of Gem Garden (the level-system version of
  \<^verbatim>\<open>game.js\<close> together with \<^verbatim>\<open>levels.js\<close>). The module-level variables of the script
  (\<^verbatim>\<open>grid\<close>, \<^verbatim>\<open>score\<close>, \<^verbatim>\<open>movesLeft\<close>, ...) are the fields of one state record that
  every operation takes and returns. The DOM (rendering, CSS classes, status text) and
  the animation delays are not modelled: an \<^verbatim>\<open>async\<close> function is the sequence of its
  synchronous parts. \<^verbatim>\<open>Math.random()\<close> is an oracle \<open>rnd\<close>, a function from the number
  of the draw to a real in \<open>[0, 1)\<close>; the state counts the draws consumed.
\<close>

subsection \<open>Configuration\<close>

definition ROWS :: nat where
  "ROWS = 8"

definition COLS :: nat where
  "COLS = 8"

definition NUM_GEM_TYPES :: int where
  "NUM_GEM_TYPES = 6"

definition POINTS_PER_GEM :: int where
  "POINTS_PER_GEM = 10"

subsection \<open>The grid\<close>

text \<open>
  \<^verbatim>\<open>grid[row][col]\<close> is a gem type, or \<open>-1\<close> for a cell emptied by \<^verbatim>\<open>removeMatches\<close>.
  The script only ever indexes the grid inside \<open>ROWS \<times> COLS\<close>; the theorems below
  assume positions in that range and a grid of that shape (\<open>wf_grid\<close>).
\<close>

type_synonym grid = "int list list"

type_synonym pos = "nat \<times> nat"

definition wf_grid :: "grid \<Rightarrow> bool" where
  "wf_grid g = (length g = ROWS \<and> list_all (\<lambda>r. length r = COLS) g)"

definition set_cell :: "grid \<Rightarrow> nat \<Rightarrow> nat \<Rightarrow> int \<Rightarrow> grid" where
  "set_cell g row col v = g[row := (g ! row)[col := v]]"

definition swap :: "nat \<Rightarrow> nat \<Rightarrow> nat \<Rightarrow> nat \<Rightarrow> grid \<Rightarrow> grid" where
  "swap row1 col1 row2 col2 g =
     (let temp = g ! row1 ! col1;
          g1 = set_cell g row1 col1 (g ! row2 ! col2)
      in set_cell g1 row2 col2 temp)"

subsection \<open>Match detection\<close>

text \<open>
  \<^verbatim>\<open>matches\<close> is a JavaScript \<^verbatim>\<open>Set\<close> of keys \<^verbatim>\<open>"row,col"\<close>: a list without duplicates in
  insertion order, which is the order \<^verbatim>\<open>Array.from\<close> returns.
\<close>

definition set_add :: "pos \<Rightarrow> pos list \<Rightarrow> pos list" where
  "set_add p ms = (if p \<in> set ms then ms else ms @ [p])"

text \<open>The inner \<^verbatim>\<open>while\<close> loop that extends a horizontal run to the right.\<close>

function extend_row :: "grid \<Rightarrow> nat \<Rightarrow> int \<Rightarrow> nat \<Rightarrow> nat" where
  "extend_row g row gemType matchEnd =
     (if matchEnd + 1 < COLS \<and> g ! row ! (matchEnd + 1) = gemType
      then extend_row g row gemType (matchEnd + 1)
      else matchEnd)"
  by pat_completeness auto
termination
  by (relation "measure (\<lambda>(g, row, gemType, matchEnd). COLS - matchEnd)") auto

declare extend_row.simps [simp del]

function extend_col :: "grid \<Rightarrow> nat \<Rightarrow> int \<Rightarrow> nat \<Rightarrow> nat" where
  "extend_col g col gemType matchEnd =
     (if matchEnd + 1 < ROWS \<and> g ! (matchEnd + 1) ! col = gemType
      then extend_col g col gemType (matchEnd + 1)
      else matchEnd)"
  by pat_completeness auto
termination
  by (relation "measure (\<lambda>(g, col, gemType, matchEnd). ROWS - matchEnd)") auto

declare extend_col.simps [simp del]

lemma extend_row_ge: "matchEnd \<le> extend_row g row gemType matchEnd"
  by (induction g row gemType matchEnd rule: extend_row.induct)
     (subst extend_row.simps, auto)

lemma extend_col_ge: "matchEnd \<le> extend_col g col gemType matchEnd"
  by (induction g col gemType matchEnd rule: extend_col.induct)
     (subst extend_col.simps, auto)

text \<open>The loops \<^verbatim>\<open>for (c = col; c <= matchEnd; c++) matches.add(...)\<close>.\<close>

definition add_row_run :: "nat \<Rightarrow> nat \<Rightarrow> nat \<Rightarrow> pos list \<Rightarrow> pos list" where
  "add_row_run row col matchEnd matches =
     fold (\<lambda>c. set_add (row, c)) [col..<matchEnd + 1] matches"

definition add_col_run :: "nat \<Rightarrow> nat \<Rightarrow> nat \<Rightarrow> pos list \<Rightarrow> pos list" where
  "add_col_run col row matchEnd matches =
     fold (\<lambda>r. set_add (r, col)) [row..<matchEnd + 1] matches"

text \<open>
  The \<^verbatim>\<open>for (col = 0; col < COLS - 2; col++)\<close> loop of one row. The body assigns
  \<^verbatim>\<open>col = matchEnd\<close> after a run, so the next iteration starts at \<open>matchEnd + 1\<close>.
  The constant \<^verbatim>\<open>gemType\<close> of the body is \<open>g ! row ! col\<close>.
\<close>

function scan_row :: "grid \<Rightarrow> nat \<Rightarrow> nat \<Rightarrow> pos list \<Rightarrow> pos list" where
  "scan_row g row col matches =
     (if col < COLS - 2 then
        (if g ! row ! (col + 1) = g ! row ! col \<and> g ! row ! (col + 2) = g ! row ! col then
           (let matchEnd = extend_row g row (g ! row ! col) (col + 2)
            in scan_row g row (matchEnd + 1) (add_row_run row col matchEnd matches))
         else scan_row g row (col + 1) matches)
      else matches)"
  by pat_completeness auto
termination
proof (relation "measure (\<lambda>(g, row, col, matches). COLS - col)")
  show "wf (measure (\<lambda>(g, row, col, matches). COLS - col))"
    by simp
next
  fix g :: grid and row col :: nat and matches :: "pos list" and matchEnd
  assume "col < COLS - 2" and "matchEnd = extend_row g row (g ! row ! col) (col + 2)"
  moreover have "col + 2 \<le> extend_row g row (g ! row ! col) (col + 2)"
    by (rule extend_row_ge)
  ultimately show "((g, row, matchEnd + 1, add_row_run row col matchEnd matches),
        (g, row, col, matches))
      \<in> measure (\<lambda>(g, row, col, matches). COLS - col)"
    by simp
next
  fix g :: grid and row col :: nat and matches :: "pos list"
  assume "col < COLS - 2"
  then show "((g, row, col + 1, matches), (g, row, col, matches))
      \<in> measure (\<lambda>(g, row, col, matches). COLS - col)"
    by simp
qed

declare scan_row.simps [simp del]

function scan_col :: "grid \<Rightarrow> nat \<Rightarrow> nat \<Rightarrow> pos list \<Rightarrow> pos list" where
  "scan_col g col row matches =
     (if row < ROWS - 2 then
        (if g ! (row + 1) ! col = g ! row ! col \<and> g ! (row + 2) ! col = g ! row ! col then
           (let matchEnd = extend_col g col (g ! row ! col) (row + 2)
            in scan_col g col (matchEnd + 1) (add_col_run col row matchEnd matches))
         else scan_col g col (row + 1) matches)
      else matches)"
  by pat_completeness auto
termination
proof (relation "measure (\<lambda>(g, col, row, matches). ROWS - row)")
  show "wf (measure (\<lambda>(g, col, row, matches). ROWS - row))"
    by simp
next
  fix g :: grid and row col :: nat and matches :: "pos list" and matchEnd
  assume "row < ROWS - 2" and "matchEnd = extend_col g col (g ! row ! col) (row + 2)"
  moreover have "row + 2 \<le> extend_col g col (g ! row ! col) (row + 2)"
    by (rule extend_col_ge)
  ultimately show "((g, col, matchEnd + 1, add_col_run col row matchEnd matches),
        (g, col, row, matches))
      \<in> measure (\<lambda>(g, col, row, matches). ROWS - row)"
    by simp
next
  fix g :: grid and row col :: nat and matches :: "pos list"
  assume "row < ROWS - 2"
  then show "((g, col, row + 1, matches), (g, col, row, matches))
      \<in> measure (\<lambda>(g, col, row, matches). ROWS - row)"
    by simp
qed

declare scan_col.simps [simp del]

definition findAllMatches :: "grid \<Rightarrow> pos list" where
  "findAllMatches g =
     (let horizontal = fold (\<lambda>row. scan_row g row 0) [0..<ROWS] [];
          vertical = fold (\<lambda>col. scan_col g col 0) [0..<COLS] horizontal
      in vertical)"

subsection \<open>Levels and the run state\<close>

text \<open>
  A level of \<^verbatim>\<open>levels.js\<close>. An absent goal is \<open>None\<close>. The display-only field
  \<^verbatim>\<open>description\<close> is left out; \<^verbatim>\<open>id\<close> is \<open>level_id\<close> and a gem goal
  \<^verbatim>\<open>{type, count}\<close> is the pair \<open>(type, count)\<close>.
\<close>

record goals =
  goal_score :: "int option"
  collectGem :: "(int \<times> int) option"
  collectGem2 :: "(int \<times> int) option"
  collectGem3 :: "(int \<times> int) option"
  collectAny :: "int option"

record level =
  level_id :: int
  name :: string
  moves :: int
  level_goals :: goals
  starThresholds :: "int list"

record progress =
  completed :: bool
  stars :: int
  bestScore :: int

record state =
  grid :: grid
  score :: int
  selectedGem :: "pos option"
  isProcessing :: bool
  currentLevel :: int
  movesLeft :: int
  totalMoves :: int
  gemsCollected :: "int \<rightharpoonup> int"
  totalGemsCollected :: int
  levelProgress :: "int \<rightharpoonup> progress"
  draws :: nat

text \<open>\<^verbatim>\<open>x || 0\<close> for a number or \<^verbatim>\<open>undefined\<close>: a stored \<open>0\<close> is falsy and gives \<open>0\<close> as well.\<close>

definition or0 :: "int option \<Rightarrow> int" where
  "or0 v = (case v of None \<Rightarrow> 0 | Some n \<Rightarrow> n)"

text \<open>\<^verbatim>\<open>LEVELS.find(l => l.id === levelId)\<close>.\<close>

definition find_level :: "level list \<Rightarrow> int \<Rightarrow> level option" where
  "find_level levels levelId = find (\<lambda>l. level_id l = levelId) levels"

subsection \<open>Match processing\<close>

definition updateScore :: "int \<Rightarrow> state \<Rightarrow> state" where
  "updateScore points st = st\<lparr>score := score st + points\<rparr>"

text \<open>One iteration of the loop \<^verbatim>\<open>for (const {row, col} of matches)\<close> that tracks collected gems.\<close>

definition collect_gem :: "pos \<Rightarrow> state \<Rightarrow> state" where
  "collect_gem p st =
     (let gemType = grid st ! fst p ! snd p
      in st\<lparr>gemsCollected := (gemsCollected st)(gemType \<mapsto> or0 (gemsCollected st gemType) + 1),
            totalGemsCollected := totalGemsCollected st + 1\<rparr>)"

definition removeMatches :: "pos list \<Rightarrow> grid \<Rightarrow> grid" where
  "removeMatches matches g = fold (\<lambda>p g. set_cell g (fst p) (snd p) (- 1)) matches g"

text \<open>
  The inner loop of \<^verbatim>\<open>applyGravity\<close>, \<^verbatim>\<open>for (row = ROWS - 1; row >= 0; row--)\<close>: the
  second argument is \<open>row + 1\<close>, the number of rows still to visit, and \<open>emptyRow\<close> is
  an integer, since it reaches \<open>-1\<close> in a column without an empty cell.
\<close>

fun gravity_col :: "nat \<Rightarrow> nat \<Rightarrow> int \<Rightarrow> grid \<Rightarrow> grid" where
  "gravity_col col 0 emptyRow g = g"
| "gravity_col col (Suc row) emptyRow g =
     (if g ! row ! col \<noteq> - 1 then
        (if int row \<noteq> emptyRow then
           gravity_col col row (emptyRow - 1)
             (set_cell (set_cell g (nat emptyRow) col (g ! row ! col)) row col (- 1))
         else gravity_col col row (emptyRow - 1) g)
      else gravity_col col row emptyRow g)"

definition applyGravity :: "grid \<Rightarrow> grid" where
  "applyGravity g = fold (\<lambda>col. gravity_col col ROWS (int ROWS - 1)) [0..<COLS] g"

text \<open>\<^verbatim>\<open>Math.floor(Math.random() * CONFIG.NUM_GEM_TYPES)\<close> at draw number \<open>n\<close>.\<close>

definition random_gem :: "(nat \<Rightarrow> real) \<Rightarrow> nat \<Rightarrow> int" where
  "random_gem rnd n = \<lfloor>rnd n * real_of_int NUM_GEM_TYPES\<rfloor>"

definition fill_cell :: "(nat \<Rightarrow> real) \<Rightarrow> nat \<Rightarrow> nat \<Rightarrow> grid \<times> nat \<Rightarrow> grid \<times> nat" where
  "fill_cell rnd col row gn =
     (if fst gn ! row ! col = - 1
      then (set_cell (fst gn) row col (random_gem rnd (snd gn)), snd gn + 1)
      else gn)"

definition fillEmptySpaces :: "(nat \<Rightarrow> real) \<Rightarrow> grid \<times> nat \<Rightarrow> grid \<times> nat" where
  "fillEmptySpaces rnd gn = fold (\<lambda>col. fold (fill_cell rnd col) [0..<ROWS]) [0..<COLS] gn"

text \<open>
  The body of the \<^verbatim>\<open>while (matches.length > 0)\<close> loop of \<^verbatim>\<open>processMatches\<close>, after
  \<^verbatim>\<open>cascadeLevel++\<close>: it returns the state and the matches of the next iteration.
  \<^verbatim>\<open>setStatus\<close>, \<^verbatim>\<open>updateGoalsProgress\<close> and \<^verbatim>\<open>animateMatches\<close> only write to the
  page and are left out.
\<close>

definition cascade_step :: "(nat \<Rightarrow> real) \<Rightarrow> int \<Rightarrow> pos list \<Rightarrow> state \<Rightarrow> pos list \<times> state" where
  "cascade_step rnd cascadeLevel matches st =
     (let st1 = fold collect_gem matches st;
          points = int (length matches) * POINTS_PER_GEM * cascadeLevel;
          st2 = updateScore points st1;
          g3 = removeMatches matches (grid st2);
          g4 = applyGravity g3;
          gn5 = fillEmptySpaces rnd (g4, draws st2);
          st5 = st2\<lparr>grid := fst gn5, draws := snd gn5\<rparr>
      in (findAllMatches (grid st5), st5))"

text \<open>
  The loop itself. Nothing bounds the number of cascades (a refill may always bring a new
  match), so the result is an option: \<open>None\<close> when the loop runs forever.
\<close>

partial_function (option) processMatches_loop ::
  "(nat \<Rightarrow> real) \<Rightarrow> int \<Rightarrow> pos list \<Rightarrow> state \<Rightarrow> state option" where
  "processMatches_loop rnd cascadeLevel matches st =
     (if length matches > 0 then
        processMatches_loop rnd (cascadeLevel + 1)
          (fst (cascade_step rnd (cascadeLevel + 1) matches st))
          (snd (cascade_step rnd (cascadeLevel + 1) matches st))
      else Some st)"

declare processMatches_loop.simps [code]

definition processMatches :: "(nat \<Rightarrow> real) \<Rightarrow> pos list \<Rightarrow> state \<Rightarrow> state option" where
  "processMatches rnd matches st = processMatches_loop rnd 0 matches st"

subsection \<open>Level end, goals and stars\<close>

datatype outcome = InProgress | Complete | Failed

text \<open>
  A goal that is \<open>0\<close> is falsy in \<^verbatim>\<open>goals.score && score < goals.score\<close>, so it is
  skipped like an absent one; a gem goal is an object and is checked whenever present.
\<close>

definition checkAllGoalsComplete :: "goals \<Rightarrow> state \<Rightarrow> bool" where
  "checkAllGoalsComplete gs st =
     (if (case goal_score gs of None \<Rightarrow> False | Some t \<Rightarrow> t \<noteq> 0 \<and> score st < t) then False
      else if (case collectGem gs of None \<Rightarrow> False
               | Some tc \<Rightarrow> or0 (gemsCollected st (fst tc)) < snd tc) then False
      else if (case collectGem2 gs of None \<Rightarrow> False
               | Some tc \<Rightarrow> or0 (gemsCollected st (fst tc)) < snd tc) then False
      else if (case collectGem3 gs of None \<Rightarrow> False
               | Some tc \<Rightarrow> or0 (gemsCollected st (fst tc)) < snd tc) then False
      else if (case collectAny gs of None \<Rightarrow> False
               | Some t \<Rightarrow> t \<noteq> 0 \<and> totalGemsCollected st < t) then False
      else True)"

text \<open>
  \<^verbatim>\<open>checkLevelEnd\<close> schedules \<^verbatim>\<open>showLevelComplete\<close> (\<open>Complete\<close>), \<^verbatim>\<open>showLevelFailed\<close>
  (\<open>Failed\<close>) or nothing (\<open>InProgress\<close>). When the current level is not in the table,
  \<^verbatim>\<open>level.goals\<close> throws: \<open>None\<close>.
\<close>

definition checkLevelEnd :: "level list \<Rightarrow> state \<Rightarrow> outcome option" where
  "checkLevelEnd levels st =
     (case find_level levels (currentLevel st) of
        None \<Rightarrow> None
      | Some level \<Rightarrow>
          (let gs = level_goals level;
               goalsComplete = checkAllGoalsComplete gs st
           in if goalsComplete then Some Complete
              else if movesLeft st \<le> 0 then
                (if checkAllGoalsComplete gs st then Some Complete else Some Failed)
              else Some InProgress))"

text \<open>\<^verbatim>\<open>thresholds[i]\<close> past the end of the array is \<^verbatim>\<open>undefined\<close>, and the comparison is false.\<close>

definition reaches :: "int \<Rightarrow> int list \<Rightarrow> nat \<Rightarrow> bool" where
  "reaches sc thresholds i = (i < length thresholds \<and> sc \<ge> thresholds ! i)"

definition calculateStars :: "level \<Rightarrow> state \<Rightarrow> int" where
  "calculateStars level st =
     (let thresholds = starThresholds level;
          stars0 = 0;
          stars1 = (if reaches (score st) thresholds 0 then 1 else stars0);
          stars2 = (if reaches (score st) thresholds 1 then 2 else stars1);
          stars3 = (if reaches (score st) thresholds 2 then 3 else stars2)
      in stars3)"

text \<open>The part of \<^verbatim>\<open>showLevelComplete\<close> that updates the stored progress.\<close>

definition showLevelComplete :: "level \<Rightarrow> state \<Rightarrow> state" where
  "showLevelComplete level st =
     (let stars' = calculateStars level st;
          existingStars = (case levelProgress st (level_id level) of
                             None \<Rightarrow> None | Some p \<Rightarrow> Some (stars p));
          existingBest = (case levelProgress st (level_id level) of
                            None \<Rightarrow> None | Some p \<Rightarrow> Some (bestScore p))
      in st\<lparr>levelProgress := (levelProgress st)(level_id level \<mapsto>
              \<lparr>completed = True,
               stars = max (or0 existingStars) stars',
               bestScore = max (or0 existingBest) (score st)\<rparr>)\<rparr>)"

subsection \<open>Valid moves\<close>

text \<open>
  The three lines \<^verbatim>\<open>swap(...); hasMatch = findAllMatches().length > 0; swap(...)\<close>
  that both scans run on each candidate: the flag and the grid after the second swap.
\<close>

definition try_move :: "nat \<Rightarrow> nat \<Rightarrow> nat \<Rightarrow> nat \<Rightarrow> grid \<Rightarrow> bool \<times> grid" where
  "try_move row1 col1 row2 col2 g =
     (let g1 = swap row1 col1 row2 col2 g;
          hasMatch = (length (findAllMatches g1) > 0);
          g2 = swap row1 col1 row2 col2 g1
      in (hasMatch, g2))"

text \<open>
  The nested loops of \<^verbatim>\<open>hasValidMoves\<close>, entered at \<open>(row, col)\<close>; a \<open>col\<close> that has
  reached \<open>COLS\<close> moves on to the next row.
\<close>

function hasValidMoves_from :: "nat \<Rightarrow> nat \<Rightarrow> grid \<Rightarrow> bool \<times> grid" where
  "hasValidMoves_from row col g =
     (if row < ROWS then
        (if col < COLS then
           (if col < COLS - 1 \<and> fst (try_move row col row (col + 1) g)
            then (True, snd (try_move row col row (col + 1) g))
            else
              (let g1 = (if col < COLS - 1 then snd (try_move row col row (col + 1) g) else g)
               in if row < ROWS - 1 \<and> fst (try_move row col (row + 1) col g1)
                  then (True, snd (try_move row col (row + 1) col g1))
                  else hasValidMoves_from row (col + 1)
                         (if row < ROWS - 1 then snd (try_move row col (row + 1) col g1) else g1)))
         else hasValidMoves_from (row + 1) 0 g)
      else (False, g))"
  by pat_completeness auto
termination
  by (relation "measures [\<lambda>(row, col, g). ROWS - row, \<lambda>(row, col, g). COLS - col]") auto

declare hasValidMoves_from.simps [simp del]

definition hasValidMoves :: "grid \<Rightarrow> bool \<times> grid" where
  "hasValidMoves g = hasValidMoves_from 0 0 g"

text \<open>A move \<^verbatim>\<open>{row1, col1, row2, col2}\<close> is the pair of its two positions.\<close>

function findValidMove_from :: "nat \<Rightarrow> nat \<Rightarrow> grid \<Rightarrow> (pos \<times> pos) option \<times> grid" where
  "findValidMove_from row col g =
     (if row < ROWS then
        (if col < COLS then
           (if col < COLS - 1 \<and> fst (try_move row col row (col + 1) g)
            then (Some ((row, col), (row, col + 1)), snd (try_move row col row (col + 1) g))
            else
              (let g1 = (if col < COLS - 1 then snd (try_move row col row (col + 1) g) else g)
               in if row < ROWS - 1 \<and> fst (try_move row col (row + 1) col g1)
                  then (Some ((row, col), (row + 1, col)), snd (try_move row col (row + 1) col g1))
                  else findValidMove_from row (col + 1)
                         (if row < ROWS - 1 then snd (try_move row col (row + 1) col g1) else g1)))
         else findValidMove_from (row + 1) 0 g)
      else (None, g))"
  by pat_completeness auto
termination
  by (relation "measures [\<lambda>(row, col, g). ROWS - row, \<lambda>(row, col, g). COLS - col]") auto

declare findValidMove_from.simps [simp del]

definition findValidMove :: "grid \<Rightarrow> (pos \<times> pos) option \<times> grid" where
  "findValidMove g = findValidMove_from 0 0 g"

subsection \<open>Shuffling\<close>

text \<open>
  The Fisher-Yates loop \<^verbatim>\<open>for (i = gems.length - 1; i > 0; i--)\<close> with
  \<^verbatim>\<open>j = Math.floor(Math.random() * (i + 1))\<close>, on the flattened gems and the draw count.
\<close>

fun fisher_yates :: "(nat \<Rightarrow> real) \<Rightarrow> nat \<Rightarrow> int list \<times> nat \<Rightarrow> int list \<times> nat" where
  "fisher_yates rnd 0 gn = gn"
| "fisher_yates rnd (Suc k) gn =
     (let i = Suc k;
          gems = fst gn;
          j = nat \<lfloor>rnd (snd gn) * real (i + 1)\<rfloor>
      in fisher_yates rnd k (gems[i := gems ! j, j := gems ! i], snd gn + 1))"

definition flatten :: "grid \<Rightarrow> int list" where
  "flatten g = concat (map (\<lambda>row. map (\<lambda>col. g ! row ! col) [0..<COLS]) [0..<ROWS])"

definition unflatten :: "int list \<Rightarrow> grid" where
  "unflatten gems = map (\<lambda>row. map (\<lambda>col. gems ! (row * COLS + col)) [0..<COLS]) [0..<ROWS]"

text \<open>
  One pass of \<^verbatim>\<open>shuffleBoard\<close> up to \<^verbatim>\<open>renderBoard()\<close>: flatten, permute, write back.
\<close>

definition shuffle_once :: "(nat \<Rightarrow> real) \<Rightarrow> grid \<times> nat \<Rightarrow> grid \<times> nat" where
  "shuffle_once rnd gn =
     (let gems = flatten (fst gn);
          shuffled = fisher_yates rnd (length gems - 1) (gems, snd gn)
      in (unflatten (fst shuffled), snd shuffled))"

text \<open>
  \<^verbatim>\<open>shuffleBoard\<close> calls itself until the board has a valid move; nothing bounds the
  number of attempts, so the result is an option.
\<close>

partial_function (option) shuffleBoard :: "(nat \<Rightarrow> real) \<Rightarrow> grid \<times> nat \<Rightarrow> (grid \<times> nat) option" where
  "shuffleBoard rnd gn =
     (let gn1 = shuffle_once rnd gn;
          hv = hasValidMoves (fst gn1)
      in if \<not> fst hv then shuffleBoard rnd (snd hv, snd gn1)
         else Some (snd hv, snd gn1))"

declare shuffleBoard.simps [code]

subsection \<open>User interaction and the swap\<close>

definition isAdjacent :: "pos \<Rightarrow> pos \<Rightarrow> bool" where
  "isAdjacent pos1 pos2 =
     (let rowDiff = \<bar>int (fst pos1) - int (fst pos2)\<bar>;
          colDiff = \<bar>int (snd pos1) - int (snd pos2)\<bar>
      in (rowDiff = 1 \<and> colDiff = 0) \<or> (rowDiff = 0 \<and> colDiff = 1))"

definition selectGem :: "nat \<Rightarrow> nat \<Rightarrow> state \<Rightarrow> state" where
  "selectGem row col st = st\<lparr>selectedGem := Some (row, col)\<rparr>"

definition deselectGem :: "state \<Rightarrow> state" where
  "deselectGem st = (case selectedGem st of None \<Rightarrow> st | Some p \<Rightarrow> st\<lparr>selectedGem := None\<rparr>)"

text \<open>
  The end of \<^verbatim>\<open>trySwap\<close>, common to both branches: the deadlock check, the shuffle and
  \<^verbatim>\<open>isProcessing = false\<close>.
\<close>

definition finish_swap :: "(nat \<Rightarrow> real) \<Rightarrow> state \<Rightarrow> state option" where
  "finish_swap rnd st =
     (let hv = hasValidMoves (grid st);
          st1 = st\<lparr>grid := snd hv\<rparr>
      in if \<not> fst hv then
           (case shuffleBoard rnd (grid st1, draws st1) of
              None \<Rightarrow> None
            | Some gn \<Rightarrow> Some (st1\<lparr>grid := fst gn, draws := snd gn, isProcessing := False\<rparr>))
         else Some (st1\<lparr>isProcessing := False\<rparr>))"

text \<open>
  \<^verbatim>\<open>trySwap\<close> returns nothing in the script; here it returns what \<^verbatim>\<open>checkLevelEnd\<close>
  scheduled (\<open>InProgress\<close> for a rejected swap, which does not call it) and the state.
  \<open>None\<close> is a call that does not return: a cascade or a shuffle that never ends, or
  the exception of \<^verbatim>\<open>checkLevelEnd\<close>.
\<close>

definition trySwap ::
  "level list \<Rightarrow> (nat \<Rightarrow> real) \<Rightarrow> nat \<Rightarrow> nat \<Rightarrow> nat \<Rightarrow> nat \<Rightarrow> state \<Rightarrow> (outcome \<times> state) option" where
  "trySwap levels rnd row1 col1 row2 col2 st =
     (let st1 = deselectGem (st\<lparr>isProcessing := True\<rparr>);
          st2 = st1\<lparr>grid := swap row1 col1 row2 col2 (grid st1)\<rparr>;
          matches = findAllMatches (grid st2)
      in if length matches > 0 then
           (let st3 = st2\<lparr>movesLeft := movesLeft st2 - 1\<rparr>
            in case processMatches rnd matches st3 of
                 None \<Rightarrow> None
               | Some st4 \<Rightarrow>
                   (case checkLevelEnd levels st4 of
                      None \<Rightarrow> None
                    | Some out \<Rightarrow>
                        (case finish_swap rnd st4 of
                           None \<Rightarrow> None
                         | Some st5 \<Rightarrow> Some (out, st5))))
         else
           (let st3 = st2\<lparr>grid := swap row1 col1 row2 col2 (grid st2)\<rparr>
            in case finish_swap rnd st3 of
                 None \<Rightarrow> None
               | Some st5 \<Rightarrow> Some (InProgress, st5)))"

definition handleGemClick ::
  "level list \<Rightarrow> (nat \<Rightarrow> real) \<Rightarrow> nat \<Rightarrow> nat \<Rightarrow> state \<Rightarrow> (outcome \<times> state) option" where
  "handleGemClick levels rnd row col st =
     (if isProcessing st then Some (InProgress, st)
      else
        (let clickedGem = (row, col)
         in case selectedGem st of
              None \<Rightarrow> Some (InProgress, selectGem row col st)
            | Some sel \<Rightarrow>
                if fst sel = row \<and> snd sel = col then Some (InProgress, deselectGem st)
                else if isAdjacent sel clickedGem
                  then trySwap levels rnd (fst sel) (snd sel) row col st
                else Some (InProgress, selectGem row col (deselectGem st))))"

subsection \<open>The level table\<close>

definition LEVELS :: "level list" where
  "LEVELS = [
    \<lparr>level_id = 1, name = ''First Steps'', moves = 20,
     level_goals = \<lparr>goal_score = Some 500, collectGem = None, collectGem2 = None,
       collectGem3 = None, collectAny = None\<rparr>,
     starThresholds = [500, 800, 1200]\<rparr>,
    \<lparr>level_id = 2, name = ''Getting Started'', moves = 20,
     level_goals = \<lparr>goal_score = Some 1000, collectGem = None, collectGem2 = None,
       collectGem3 = None, collectAny = None\<rparr>,
     starThresholds = [1000, 1500, 2000]\<rparr>,
    \<lparr>level_id = 3, name = ''Ruby Hunt'', moves = 15,
     level_goals = \<lparr>goal_score = Some 500, collectGem = Some (0, 10), collectGem2 = None,
       collectGem3 = None, collectAny = None\<rparr>,
     starThresholds = [500, 1000, 1500]\<rparr>,
    \<lparr>level_id = 4, name = ''Sapphire Search'', moves = 15,
     level_goals = \<lparr>goal_score = Some 600, collectGem = Some (1, 12), collectGem2 = None,
       collectGem3 = None, collectAny = None\<rparr>,
     starThresholds = [600, 1200, 1800]\<rparr>,
    \<lparr>level_id = 5, name = ''Cascade Training'', moves = 18,
     level_goals = \<lparr>goal_score = Some 1500, collectGem = None, collectGem2 = None,
       collectGem3 = None, collectAny = None\<rparr>,
     starThresholds = [1500, 2500, 3500]\<rparr>,
    \<lparr>level_id = 6, name = ''Emerald Valley'', moves = 18,
     level_goals = \<lparr>goal_score = Some 800, collectGem = Some (2, 15), collectGem2 = None,
       collectGem3 = None, collectAny = None\<rparr>,
     starThresholds = [800, 1500, 2200]\<rparr>,
    \<lparr>level_id = 7, name = ''Golden Touch'', moves = 16,
     level_goals = \<lparr>goal_score = Some 1000, collectGem = Some (3, 15), collectGem2 = None,
       collectGem3 = None, collectAny = None\<rparr>,
     starThresholds = [1000, 1800, 2600]\<rparr>,
    \<lparr>level_id = 8, name = ''Purple Rain'', moves = 20,
     level_goals = \<lparr>goal_score = None, collectGem = Some (4, 20), collectGem2 = None,
       collectGem3 = None, collectAny = None\<rparr>,
     starThresholds = [1000, 2000, 3000]\<rparr>,
    \<lparr>level_id = 9, name = ''Orange Crush'', moves = 15,
     level_goals = \<lparr>goal_score = Some 1200, collectGem = Some (5, 12), collectGem2 = None,
       collectGem3 = None, collectAny = None\<rparr>,
     starThresholds = [1200, 2000, 2800]\<rparr>,
    \<lparr>level_id = 10, name = ''Score Master'', moves = 25,
     level_goals = \<lparr>goal_score = Some 3000, collectGem = None, collectGem2 = None,
       collectGem3 = None, collectAny = None\<rparr>,
     starThresholds = [3000, 4500, 6000]\<rparr>,
    \<lparr>level_id = 11, name = ''Dual Collection'', moves = 20,
     level_goals = \<lparr>goal_score = None, collectGem = Some (0, 10), collectGem2 = Some (1, 10),
       collectGem3 = None, collectAny = None\<rparr>,
     starThresholds = [1500, 2500, 3500]\<rparr>,
    \<lparr>level_id = 12, name = ''Gem Frenzy'', moves = 22,
     level_goals = \<lparr>goal_score = Some 2500, collectGem = None, collectGem2 = None,
       collectGem3 = None, collectAny = Some 50\<rparr>,
     starThresholds = [2500, 4000, 5500]\<rparr>,
    \<lparr>level_id = 13, name = ''Precision Play'', moves = 12,
     level_goals = \<lparr>goal_score = Some 1500, collectGem = None, collectGem2 = None,
       collectGem3 = None, collectAny = None\<rparr>,
     starThresholds = [1500, 2200, 3000]\<rparr>,
    \<lparr>level_id = 14, name = ''Rainbow Quest'', moves = 25,
     level_goals = \<lparr>goal_score = None, collectGem = Some (0, 8), collectGem2 = Some (2, 8),
       collectGem3 = Some (4, 8), collectAny = None\<rparr>,
     starThresholds = [2000, 3500, 5000]\<rparr>,
    \<lparr>level_id = 15, name = ''High Stakes'', moves = 18,
     level_goals = \<lparr>goal_score = Some 4000, collectGem = None, collectGem2 = None,
       collectGem3 = None, collectAny = None\<rparr>,
     starThresholds = [4000, 5500, 7000]\<rparr>,
    \<lparr>level_id = 16, name = ''Expert Challenge'', moves = 15,
     level_goals = \<lparr>goal_score = Some 3500, collectGem = Some (3, 15), collectGem2 = None,
       collectGem3 = None, collectAny = None\<rparr>,
     starThresholds = [3500, 5000, 6500]\<rparr>,
    \<lparr>level_id = 17, name = ''Cascade King'', moves = 20,
     level_goals = \<lparr>goal_score = Some 5000, collectGem = None, collectGem2 = None,
       collectGem3 = None, collectAny = None\<rparr>,
     starThresholds = [5000, 7000, 9000]\<rparr>,
    \<lparr>level_id = 18, name = ''Triple Threat'', moves = 22,
     level_goals = \<lparr>goal_score = None, collectGem = Some (1, 12), collectGem2 = Some (3, 12),
       collectGem3 = Some (5, 12), collectAny = None\<rparr>,
     starThresholds = [3000, 5000, 7000]\<rparr>,
    \<lparr>level_id = 19, name = ''Speed Demon'', moves = 10,
     level_goals = \<lparr>goal_score = Some 2000, collectGem = None, collectGem2 = None,
       collectGem3 = None, collectAny = None\<rparr>,
     starThresholds = [2000, 3000, 4000]\<rparr>,
    \<lparr>level_id = 20, name = ''Grand Finale'', moves = 25,
     level_goals = \<lparr>goal_score = Some 8000, collectGem = None, collectGem2 = None,
       collectGem3 = None, collectAny = Some 80\<rparr>,
     starThresholds = [8000, 10000, 12000]\<rparr>]"

subsection \<open>A concrete board\<close>

text \<open>
  A board without a standing match on which exchanging \<open>(0, 2)\<close> and \<open>(0, 3)\<close> lines up
  three gems of type \<open>0\<close>, a run state at the start of level 1, and a random source whose
  draws give the gem types \<open>3, 4, 5, 3, 4, 5, ...\<close>.
\<close>

definition example_grid :: grid where
  "example_grid =
     [[0, 0, 1, 0, 2, 3, 4, 5],
      [2, 3, 3, 5, 0, 1, 2, 3],
      [4, 4, 3, 4, 2, 3, 4, 5],
      [0, 1, 2, 3, 4, 5, 0, 1],
      [2, 3, 4, 5, 0, 1, 2, 3],
      [4, 5, 0, 1, 2, 3, 4, 5],
      [0, 1, 2, 3, 4, 5, 0, 1],
      [2, 3, 4, 5, 0, 1, 2, 3]]"

definition example_state :: state where
  "example_state =
     \<lparr>grid = example_grid, score = 0, selectedGem = None, isProcessing = False,
      currentLevel = 1, movesLeft = 20, totalMoves = 20,
      gemsCollected = [0 \<mapsto> 0, 1 \<mapsto> 0, 2 \<mapsto> 0, 3 \<mapsto> 0, 4 \<mapsto> 0, 5 \<mapsto> 0],
      totalGemsCollected = 0, levelProgress = Map.empty, draws = 0\<rparr>"

definition example_rnd :: "nat \<Rightarrow> real" where
  "example_rnd n = real (3 + n mod 3) / 6"

text \<open>Level 2, "Getting Started": a score goal of 1000 and thresholds 1000, 1500, 2000.\<close>

definition level_two :: level where
  "level_two = LEVELS ! 1"

subsection \<open>The cascade loop, iteration by iteration\<close>

text \<open>
  The variables \<open>(cascadeLevel, matches, state)\<close> of the loop of \<^verbatim>\<open>processMatches\<close> after
  \<open>k\<close> iterations, or at its exit when it stops before: the loop unrolled \<open>k\<close> times.
\<close>

fun cascade_iter ::
  "(nat \<Rightarrow> real) \<Rightarrow> nat \<Rightarrow> int \<times> pos list \<times> state \<Rightarrow> int \<times> pos list \<times> state" where
  "cascade_iter rnd 0 x = x"
| "cascade_iter rnd (Suc k) x =
     (if length (fst (snd x)) > 0 then
        cascade_iter rnd k
          (fst x + 1,
           fst (cascade_step rnd (fst x + 1) (fst (snd x)) (snd (snd x))),
           snd (cascade_step rnd (fst x + 1) (fst (snd x)) (snd (snd x))))
      else x)"

subsection \<open>Columns\<close>

text \<open>The cells of column \<open>col\<close> from the top row to the bottom row.\<close>

definition column :: "grid \<Rightarrow> nat \<Rightarrow> int list" where
  "column g col = map (\<lambda>row. g ! row ! col) [0..<ROWS]"

text \<open>A board with empty cells: three in a row at the top left, three scattered in column 4.\<close>

definition holed_grid :: grid where
  "holed_grid =
     [[- 1, - 1, - 1, 0, 2, 3, 4, 5],
      [2, 3, 3, 5, - 1, 1, 2, 3],
      [4, 4, 3, 4, 2, 3, 4, 5],
      [0, 1, 2, 3, - 1, 5, 0, 1],
      [2, 3, 4, 5, 0, 1, 2, 3],
      [4, 5, 0, 1, - 1, 3, 4, 5],
      [0, 1, 2, 3, 4, 5, 0, 1],
      [2, 3, 4, 5, 0, 1, 2, 3]]"

subsection \<open>Runs of three\<close>

text \<open>
  Three equal cells side by side starting at \<open>(row, col)\<close>, to the right and downwards;
  a cell in a window of three equal cells of its row, or of its column; a board without
  an empty cell.
\<close>

definition row_triple :: "grid \<Rightarrow> nat \<Rightarrow> nat \<Rightarrow> bool" where
  "row_triple g row col =
     (col + 2 < COLS \<and> g ! row ! (col + 1) = g ! row ! col \<and> g ! row ! (col + 2) = g ! row ! col)"

definition col_triple :: "grid \<Rightarrow> nat \<Rightarrow> nat \<Rightarrow> bool" where
  "col_triple g row col =
     (row + 2 < ROWS \<and> g ! (row + 1) ! col = g ! row ! col \<and> g ! (row + 2) ! col = g ! row ! col)"

definition in_row_run :: "grid \<Rightarrow> nat \<Rightarrow> nat \<Rightarrow> bool" where
  "in_row_run g row col = (\<exists>k\<in>{col - 2..col}. row_triple g row k \<and> g ! row ! k = g ! row ! col)"

definition in_col_run :: "grid \<Rightarrow> nat \<Rightarrow> nat \<Rightarrow> bool" where
  "in_col_run g row col = (\<exists>k\<in>{row - 2..row}. col_triple g k col \<and> g ! k ! col = g ! row ! col)"

definition no_empty :: "grid \<Rightarrow> bool" where
  "no_empty g = list_all (list_all (\<lambda>v. v \<noteq> - 1)) g"

subsection \<open>The scan order of the move oracle, as the specification words it\<close>

text \<open>
  The candidate swaps of one cell, its right neighbour before its bottom neighbour, each
  only if on the board; all candidates in row-major order of the cells; the candidates
  from the cell \<open>(row, col)\<close> on; and the test "the swap produces a match".
\<close>

definition cell_candidates :: "nat \<Rightarrow> nat \<Rightarrow> (pos \<times> pos) list" where
  "cell_candidates row col =
     (if col < COLS - 1 then [((row, col), (row, col + 1))] else [])
     @ (if row < ROWS - 1 then [((row, col), (row + 1, col))] else [])"

definition scan_candidates :: "(pos \<times> pos) list" where
  "scan_candidates =
     concat (map (\<lambda>row. concat (map (cell_candidates row) [0..<COLS])) [0..<ROWS])"

definition candidates_from :: "nat \<Rightarrow> nat \<Rightarrow> (pos \<times> pos) list" where
  "candidates_from row col =
     (if row < ROWS then
        concat (map (cell_candidates row) [col..<COLS])
        @ concat (map (\<lambda>row. concat (map (cell_candidates row) [0..<COLS])) [row + 1..<ROWS])
      else [])"

definition produces_match :: "grid \<Rightarrow> pos \<times> pos \<Rightarrow> bool" where
  "produces_match g m =
     (findAllMatches (swap (fst (fst m)) (snd (fst m)) (fst (snd m)) (snd (snd m)) g) \<noteq> [])"

subsection \<open>An accepted swap\<close>

text \<open>
  The state in which \<^verbatim>\<open>trySwap\<close> calls \<^verbatim>\<open>processMatches\<close> when the exchanged cells line
  up a match (busy flag set, selection cleared, cells exchanged, one move used); the match
  list and the state of that call after \<open>k\<close> iterations of its loop; and the number of
  positions of a match list whose cell holds the gem type \<open>t\<close>.
\<close>

definition swap_start :: "nat \<Rightarrow> nat \<Rightarrow> nat \<Rightarrow> nat \<Rightarrow> state \<Rightarrow> state" where
  "swap_start row1 col1 row2 col2 st =
     st\<lparr>isProcessing := True, selectedGem := None,
        grid := swap row1 col1 row2 col2 (grid st), movesLeft := movesLeft st - 1\<rparr>"

definition accepted_matches ::
  "(nat \<Rightarrow> real) \<Rightarrow> nat \<Rightarrow> nat \<Rightarrow> nat \<Rightarrow> nat \<Rightarrow> state \<Rightarrow> nat \<Rightarrow> pos list" where
  "accepted_matches rnd row1 col1 row2 col2 st k =
     fst (snd (cascade_iter rnd k
       (0, findAllMatches (swap row1 col1 row2 col2 (grid st)),
        swap_start row1 col1 row2 col2 st)))"

definition accepted_state ::
  "(nat \<Rightarrow> real) \<Rightarrow> nat \<Rightarrow> nat \<Rightarrow> nat \<Rightarrow> nat \<Rightarrow> state \<Rightarrow> nat \<Rightarrow> state" where
  "accepted_state rnd row1 col1 row2 col2 st k =
     snd (snd (cascade_iter rnd k
       (0, findAllMatches (swap row1 col1 row2 col2 (grid st)),
        swap_start row1 col1 row2 col2 st)))"

definition kind_count :: "grid \<Rightarrow> int \<Rightarrow> pos list \<Rightarrow> int" where
  "kind_count g t ms = int (length (filter (\<lambda>p. g ! fst p ! snd p = t) ms))"

section \<open>Basic facts\<close>

subsection \<open>Cells of a well-formed grid\<close>

lemma wf_grid_nth: "wf_grid g \<Longrightarrow> r < ROWS \<Longrightarrow> length (g ! r) = COLS"
  by (simp add: wf_grid_def list_all_length)

lemma wf_grid_length: "wf_grid g \<Longrightarrow> length g = ROWS"
  by (simp add: wf_grid_def)

lemma wf_grid_set_cell: "wf_grid g \<Longrightarrow> wf_grid (set_cell g r c v)"
  by (cases "r < length g")
     (auto simp add: wf_grid_def set_cell_def list_all_length nth_list_update)

lemma nth_set_cell:
  "wf_grid g \<Longrightarrow> r < ROWS \<Longrightarrow> c < COLS \<Longrightarrow>
     set_cell g r c v ! r' ! c' = (if r' = r \<and> c' = c then v else g ! r' ! c')"
  by (auto simp add: wf_grid_def set_cell_def list_all_length nth_list_update)

lemma grid_eqI:
  assumes "wf_grid g" and "wf_grid g'"
    and "\<And>r c. r < ROWS \<Longrightarrow> c < COLS \<Longrightarrow> g ! r ! c = g' ! r ! c"
  shows "g = g'"
proof (rule nth_equalityI)
  show "length g = length g'"
    using assms(1,2) by (simp add: wf_grid_def)
next
  fix r assume "r < length g"
  then have r: "r < ROWS" using assms(1) by (simp add: wf_grid_def)
  show "g ! r = g' ! r"
  proof (rule nth_equalityI)
    show "length (g ! r) = length (g' ! r)"
      using assms(1,2) r by (simp add: wf_grid_nth)
  next
    fix c assume "c < length (g ! r)"
    then have "c < COLS" using assms(1) r by (simp add: wf_grid_nth)
    then show "g ! r ! c = g' ! r ! c" using assms(3) r by simp
  qed
qed

lemma wf_grid_swap: "wf_grid g \<Longrightarrow> wf_grid (swap r1 c1 r2 c2 g)"
  by (simp add: swap_def Let_def wf_grid_set_cell)

lemma nth_swap:
  assumes "wf_grid g" "r1 < ROWS" "c1 < COLS" "r2 < ROWS" "c2 < COLS"
  shows "swap r1 c1 r2 c2 g ! r ! c =
           (if r = r2 \<and> c = c2 then g ! r1 ! c1
            else if r = r1 \<and> c = c1 then g ! r2 ! c2 else g ! r ! c)"
  using assms by (simp add: swap_def Let_def nth_set_cell wf_grid_set_cell)

lemma swap_swap:
  assumes "wf_grid g" "r1 < ROWS" "c1 < COLS" "r2 < ROWS" "c2 < COLS"
  shows "swap r1 c1 r2 c2 (swap r1 c1 r2 c2 g) = g"
proof (rule grid_eqI)
  show "wf_grid (swap r1 c1 r2 c2 (swap r1 c1 r2 c2 g))"
    using assms(1) by (simp add: wf_grid_swap)
  show "wf_grid g" by fact
  fix r c
  show "swap r1 c1 r2 c2 (swap r1 c1 r2 c2 g) ! r ! c = g ! r ! c"
    using assms by (simp add: nth_swap wf_grid_swap)
qed

lemma snd_try_move:
  assumes "wf_grid g" "r1 < ROWS" "c1 < COLS" "r2 < ROWS" "c2 < COLS"
  shows "snd (try_move r1 c1 r2 c2 g) = g"
  using assms by (simp add: try_move_def Let_def swap_swap)

lemma fst_try_move:
  "fst (try_move r1 c1 r2 c2 g) = (findAllMatches (swap r1 c1 r2 c2 g) \<noteq> [])"
  by (simp add: try_move_def Let_def)

lemma snd_hasValidMoves_from: "wf_grid g \<Longrightarrow> snd (hasValidMoves_from row col g) = g"
proof (induction row col g rule: hasValidMoves_from.induct)
  case (1 row col g)
  show ?case
  proof (cases "row < ROWS \<and> col < COLS")
    case False
    then show ?thesis
      using 1 by (subst hasValidMoves_from.simps) auto
  next
    case True
    then have b: "row < ROWS" "col < COLS" by auto
    have r: "col < COLS - 1 \<Longrightarrow> snd (try_move row col row (col + 1) g) = g"
      using "1.prems" b by (intro snd_try_move) auto
    have d: "row < ROWS - 1 \<Longrightarrow> snd (try_move row col (row + 1) col g) = g"
      using "1.prems" b by (intro snd_try_move) auto
    show ?thesis
      using 1 b r d by (subst hasValidMoves_from.simps) (auto simp add: Let_def)
  qed
qed

lemma snd_findValidMove_from: "wf_grid g \<Longrightarrow> snd (findValidMove_from row col g) = g"
proof (induction row col g rule: findValidMove_from.induct)
  case (1 row col g)
  show ?case
  proof (cases "row < ROWS \<and> col < COLS")
    case False
    then show ?thesis
      using 1 by (subst findValidMove_from.simps) auto
  next
    case True
    then have b: "row < ROWS" "col < COLS" by auto
    have r: "col < COLS - 1 \<Longrightarrow> snd (try_move row col row (col + 1) g) = g"
      using "1.prems" b by (intro snd_try_move) auto
    have d: "row < ROWS - 1 \<Longrightarrow> snd (try_move row col (row + 1) col g) = g"
      using "1.prems" b by (intro snd_try_move) auto
    show ?thesis
      using 1 b r d by (subst findValidMove_from.simps) (auto simp add: Let_def)
  qed
qed

subsection \<open>The cascade loop\<close>

lemma fold_collect_gem_fields:
  "grid (fold collect_gem ms st) = grid st
   \<and> score (fold collect_gem ms st) = score st
   \<and> movesLeft (fold collect_gem ms st) = movesLeft st
   \<and> draws (fold collect_gem ms st) = draws st
   \<and> selectedGem (fold collect_gem ms st) = selectedGem st
   \<and> isProcessing (fold collect_gem ms st) = isProcessing st
   \<and> currentLevel (fold collect_gem ms st) = currentLevel st
   \<and> totalGemsCollected (fold collect_gem ms st) = totalGemsCollected st + int (length ms)"
  by (induction ms arbitrary: st) (simp_all add: collect_gem_def Let_def)

lemma cascade_step_fields:
  "movesLeft (snd (cascade_step rnd n ms st)) = movesLeft st
   \<and> selectedGem (snd (cascade_step rnd n ms st)) = selectedGem st
   \<and> isProcessing (snd (cascade_step rnd n ms st)) = isProcessing st
   \<and> currentLevel (snd (cascade_step rnd n ms st)) = currentLevel st
   \<and> score (snd (cascade_step rnd n ms st)) = score st + int (length ms) * 10 * n
   \<and> totalGemsCollected (snd (cascade_step rnd n ms st)) = totalGemsCollected st + int (length ms)
   \<and> fst (cascade_step rnd n ms st) = findAllMatches (grid (snd (cascade_step rnd n ms st)))
   \<and> grid (snd (cascade_step rnd n ms st))
       = fst (fillEmptySpaces rnd (applyGravity (removeMatches ms (grid st)), draws st))"
  by (simp add: cascade_step_def Let_def updateScore_def fold_collect_gem_fields POINTS_PER_GEM_def)

lemma processMatches_loop_invariant:
  assumes run: "processMatches_loop rnd n ms st = Some st'"
    and init: "I n ms st"
    and step: "\<And>n ms st. I n ms st \<Longrightarrow> ms \<noteq> [] \<Longrightarrow>
      I (n + 1) (fst (cascade_step rnd (n + 1) ms st)) (snd (cascade_step rnd (n + 1) ms st))"
  shows "\<exists>n'. I n' [] st'"
proof -
  have "processMatches_loop r n ms st = Some st' \<Longrightarrow> r = rnd \<Longrightarrow> I n ms st
      \<Longrightarrow> \<exists>n'. I n' [] st'" for r
  proof (induction r n ms st st' rule: processMatches_loop.raw_induct [rotated 1, consumes 1])
    case (1 loop r n ms st st')
    show ?case
    proof (cases "ms = []")
      case True
      with "1.hyps" "1.prems" show ?thesis by auto
    next
      case False
      with "1.hyps" have "loop r (n + 1) (fst (cascade_step r (n + 1) ms st))
          (snd (cascade_step r (n + 1) ms st)) = Some st'"
        by simp
      moreover have "I (n + 1) (fst (cascade_step r (n + 1) ms st))
          (snd (cascade_step r (n + 1) ms st))"
        using step [OF _ False, of n st] "1.prems" by simp
      ultimately show ?thesis
        using "1.IH" "1.prems"(1) by blast
    qed
  qed
  from this [OF run refl init] show ?thesis .
qed

lemma processMatches_loop_frame:
  assumes "processMatches_loop rnd n ms st = Some st'"
  shows "movesLeft st' = movesLeft st \<and> selectedGem st' = selectedGem st
       \<and> isProcessing st' = isProcessing st \<and> currentLevel st' = currentLevel st"
proof -
  let ?I = "\<lambda>(n :: int) (ms :: pos list) s. movesLeft s = movesLeft st
     \<and> selectedGem s = selectedGem st \<and> isProcessing s = isProcessing st
     \<and> currentLevel s = currentLevel st"
  have "\<exists>n'. ?I n' [] st'"
    by (rule processMatches_loop_invariant [OF assms, where I = ?I])
       (simp_all add: cascade_step_fields)
  then show ?thesis by simp
qed

lemma processMatches_loop_mono:
  assumes "processMatches_loop rnd n ms st = Some st'" and "0 \<le> n"
  shows "score st \<le> score st' \<and> totalGemsCollected st \<le> totalGemsCollected st'"
proof -
  let ?I = "\<lambda>(n :: int) (ms :: pos list) s. 0 \<le> n \<and> score st \<le> score s
     \<and> totalGemsCollected st \<le> totalGemsCollected s"
  have "\<exists>n'. ?I n' [] st'"
  proof (rule processMatches_loop_invariant [OF assms(1), where I = ?I])
    show "?I n ms st" using assms(2) by simp
  next
    fix n :: int and ms :: "pos list" and s :: state
    assume inv: "?I n ms s"
    define points where "points = int (length ms) * 10 * (n + 1)"
    have "0 \<le> points"
      using inv by (simp add: points_def)
    moreover have "score (snd (cascade_step rnd (n + 1) ms s)) = score s + points"
      by (simp add: cascade_step_fields points_def)
    ultimately show "?I (n + 1) (fst (cascade_step rnd (n + 1) ms s))
        (snd (cascade_step rnd (n + 1) ms s))"
      using inv by (simp add: cascade_step_fields)
  qed
  then show ?thesis by simp
qed

lemma processMatches_first_step:
  assumes "processMatches rnd ms st = Some st'" and "ms \<noteq> []"
  shows "score st + 10 * int (length ms) \<le> score st'
       \<and> totalGemsCollected st + int (length ms) \<le> totalGemsCollected st'
       \<and> movesLeft st' = movesLeft st \<and> currentLevel st' = currentLevel st"
proof -
  let ?ms1 = "fst (cascade_step rnd 1 ms st)" and ?st1 = "snd (cascade_step rnd 1 ms st)"
  have run: "processMatches_loop rnd 1 ?ms1 ?st1 = Some st'"
    using assms by (simp add: processMatches_def processMatches_loop.simps [of rnd 0 ms st])
  from processMatches_loop_mono [OF run] processMatches_loop_frame [OF run]
  show ?thesis
    by (simp add: cascade_step_fields)
qed

lemma cascade_iter_stop: "fst (snd x) = [] \<Longrightarrow> cascade_iter rnd k x = x"
  by (cases k) simp_all

lemma cascade_iter_Suc:
  "cascade_iter rnd (Suc k) x =
     (if length (fst (snd (cascade_iter rnd k x))) > 0 then
        (fst (cascade_iter rnd k x) + 1,
         fst (cascade_step rnd (fst (cascade_iter rnd k x) + 1)
                (fst (snd (cascade_iter rnd k x))) (snd (snd (cascade_iter rnd k x)))),
         snd (cascade_step rnd (fst (cascade_iter rnd k x) + 1)
                (fst (snd (cascade_iter rnd k x))) (snd (snd (cascade_iter rnd k x)))))
      else cascade_iter rnd k x)"
proof (induction k arbitrary: x)
  case 0
  show ?case by simp
next
  case (Suc k)
  show ?case
  proof (cases "fst (snd x) = []")
    case True
    then show ?thesis
      by (simp only: cascade_iter_stop [OF True]) simp
  next
    case False
    let ?x1 = "(fst x + 1,
           fst (cascade_step rnd (fst x + 1) (fst (snd x)) (snd (snd x))),
           snd (cascade_step rnd (fst x + 1) (fst (snd x)) (snd (snd x))))"
    have a: "cascade_iter rnd (Suc j) x = cascade_iter rnd j ?x1" for j
      using False by simp
    show ?thesis
      using Suc.IH [of ?x1] by (simp only: a)
  qed
qed

lemma processMatches_loop_iter:
  assumes "processMatches_loop rnd n ms st = Some st'"
  shows "\<exists>K. cascade_iter rnd K (n, ms, st) = (n + int K, [], st')
       \<and> (\<forall>k<K. fst (cascade_iter rnd k (n, ms, st)) = n + int k
               \<and> fst (snd (cascade_iter rnd k (n, ms, st))) \<noteq> [])"
  using assms
proof (induction rnd n ms st st' rule: processMatches_loop.raw_induct [rotated 1, consumes 1])
  case (1 loop rnd n ms st st')
  show ?case
  proof (cases "ms = []")
    case True
    with "1.hyps" have "cascade_iter rnd 0 (n, ms, st) = (n + int 0, [], st')"
      by simp
    then show ?thesis by blast
  next
    case False
    let ?ms1 = "fst (cascade_step rnd (n + 1) ms st)"
    let ?st1 = "snd (cascade_step rnd (n + 1) ms st)"
    from False "1.hyps" have "loop rnd (n + 1) ?ms1 ?st1 = Some st'"
      by simp
    from "1.IH" [OF this] obtain K where
      K: "cascade_iter rnd K (n + 1, ?ms1, ?st1) = (n + 1 + int K, [], st')"
      and before: "\<forall>k<K. fst (cascade_iter rnd k (n + 1, ?ms1, ?st1)) = n + 1 + int k
               \<and> fst (snd (cascade_iter rnd k (n + 1, ?ms1, ?st1))) \<noteq> []"
      by blast
    have unfold: "cascade_iter rnd (Suc k) (n, ms, st) = cascade_iter rnd k (n + 1, ?ms1, ?st1)"
      for k using False by simp
    have "cascade_iter rnd (Suc K) (n, ms, st) = (n + int (Suc K), [], st')"
      using K unfold by simp
    moreover have "fst (cascade_iter rnd k (n, ms, st)) = n + int k
        \<and> fst (snd (cascade_iter rnd k (n, ms, st))) \<noteq> []" if "k < Suc K" for k
    proof (cases k)
      case 0
      then show ?thesis using False by simp
    next
      case (Suc j)
      with that have "j < K" by simp
      with before unfold [of j] Suc show ?thesis by simp
    qed
    ultimately show ?thesis by blast
  qed
qed

subsection \<open>The swap\<close>

lemma deselectGem_eq: "deselectGem st = st\<lparr>selectedGem := None\<rparr>"
  by (cases "selectedGem st") (simp_all add: deselectGem_def)

lemma finish_swap_frame:
  assumes "finish_swap rnd st = Some st'"
  shows "score st' = score st \<and> movesLeft st' = movesLeft st
       \<and> gemsCollected st' = gemsCollected st
       \<and> totalGemsCollected st' = totalGemsCollected st
       \<and> selectedGem st' = selectedGem st \<and> currentLevel st' = currentLevel st
       \<and> \<not> isProcessing st'"
  using assms by (auto simp add: finish_swap_def Let_def split: if_splits option.splits)

lemma snd_hasValidMoves: "wf_grid g \<Longrightarrow> snd (hasValidMoves g) = g"
  by (simp add: hasValidMoves_def snd_hasValidMoves_from)

lemma finish_swap_valid:
  assumes "wf_grid (grid st)" and "fst (hasValidMoves (grid st))"
  shows "finish_swap rnd st = Some (st\<lparr>isProcessing := False\<rparr>)"
  using assms by (simp add: finish_swap_def Let_def snd_hasValidMoves)

lemma trySwap_rejected:
  assumes "wf_grid (grid st)" "row1 < ROWS" "col1 < COLS" "row2 < ROWS" "col2 < COLS"
    and "fst (hasValidMoves (grid st))"
    and "findAllMatches (swap row1 col1 row2 col2 (grid st)) = []"
  shows "trySwap levels rnd row1 col1 row2 col2 st
           = Some (InProgress, st\<lparr>selectedGem := None, isProcessing := False\<rparr>)"
proof -
  let ?st1 = "st\<lparr>isProcessing := True, selectedGem := None\<rparr>"
  have "finish_swap rnd ?st1 = Some (?st1\<lparr>isProcessing := False\<rparr>)"
    using assms(1,6) by (intro finish_swap_valid) simp_all
  then show ?thesis
    using assms by (simp add: trySwap_def Let_def deselectGem_eq swap_swap)
qed

lemma trySwap_accepted:
  assumes "findAllMatches (swap row1 col1 row2 col2 (grid st)) \<noteq> []"
    and "trySwap levels rnd row1 col1 row2 col2 st = Some (out, st')"
  shows "movesLeft st' = movesLeft st - 1
       \<and> score st + 10 * int (length (findAllMatches (swap row1 col1 row2 col2 (grid st))))
            \<le> score st'
       \<and> totalGemsCollected st
            + int (length (findAllMatches (swap row1 col1 row2 col2 (grid st))))
            \<le> totalGemsCollected st'
       \<and> (\<exists>st4. checkLevelEnd levels st4 = Some out \<and> movesLeft st4 = movesLeft st - 1
              \<and> currentLevel st4 = currentLevel st)"
proof -
  let ?ms = "findAllMatches (swap row1 col1 row2 col2 (grid st))"
  let ?st3 = "st\<lparr>isProcessing := True, selectedGem := None,
                 grid := swap row1 col1 row2 col2 (grid st),
                 movesLeft := movesLeft st - 1\<rparr>"
  from assms obtain st4 where
    run: "processMatches rnd ?ms ?st3 = Some st4"
    and out: "checkLevelEnd levels st4 = Some out"
    and fin: "finish_swap rnd st4 = Some st'"
    by (auto simp add: trySwap_def Let_def deselectGem_eq split: option.splits)
  from processMatches_first_step [OF run assms(1)] finish_swap_frame [OF fin] out
  show ?thesis
    by auto
qed

lemma trySwap_score_mono:
  assumes "trySwap levels rnd row1 col1 row2 col2 st = Some (out, st')"
  shows "score st \<le> score st'"
proof (cases "findAllMatches (swap row1 col1 row2 col2 (grid st)) = []")
  case True
  let ?st3 = "st\<lparr>isProcessing := True, selectedGem := None,
      grid := swap row1 col1 row2 col2 (swap row1 col1 row2 col2 (grid st))\<rparr>"
  from assms True have "finish_swap rnd ?st3 = Some st'"
    by (auto simp add: trySwap_def Let_def deselectGem_eq split: option.splits)
  from finish_swap_frame [OF this] show ?thesis by simp
next
  case False
  from trySwap_accepted [OF False assms] show ?thesis by simp
qed

lemma cascade_iter_returns:
  "fst (snd (cascade_iter rnd K (n, ms, st))) = [] \<Longrightarrow>
     processMatches_loop rnd n ms st = Some (snd (snd (cascade_iter rnd K (n, ms, st))))"
proof (induction K arbitrary: n ms st)
  case 0
  then show ?case
    by (subst processMatches_loop.simps) simp
next
  case (Suc K)
  show ?case
  proof (cases "ms = []")
    case True
    then show ?thesis
      by (subst processMatches_loop.simps) simp
  next
    case False
    with Suc.prems Suc.IH [of "n + 1" "fst (cascade_step rnd (n + 1) ms st)"
        "snd (cascade_step rnd (n + 1) ms st)"]
    show ?thesis
      by (subst processMatches_loop.simps) simp
  qed
qed

lemma checkLevelEnd_no_moves:
  "checkLevelEnd levels st = Some out \<Longrightarrow> movesLeft st \<le> 0 \<Longrightarrow> out \<noteq> InProgress"
  by (auto simp add: checkLevelEnd_def Let_def split: option.splits if_splits)

subsection \<open>Gravity on one column\<close>

lemma length_column: "length (column g c) = ROWS"
  by (simp add: column_def)

lemma nth_column: "r < ROWS \<Longrightarrow> column g c ! r = g ! r ! c"
  by (simp add: column_def)

lemma column_set_cell:
  assumes "wf_grid g" and "c < COLS"
  shows "column (set_cell g r c v) c' = (if c' = c then (column g c)[r := v] else column g c')"
proof (cases "r < ROWS")
  case False
  then have "set_cell g r c v = g"
    using assms(1) by (simp add: set_cell_def wf_grid_def list_update_beyond)
  with False show ?thesis
    by (simp add: length_column list_update_beyond)
next
  case True
  show ?thesis
  proof (rule nth_equalityI)
    show "length (column (set_cell g r c v) c')
        = length (if c' = c then (column g c)[r := v] else column g c')"
      by (simp add: length_column)
  next
    fix i assume "i < length (column (set_cell g r c v) c')"
    then have i: "i < ROWS" by (simp add: length_column)
    then show "column (set_cell g r c v) c' ! i
        = (if c' = c then (column g c)[r := v] else column g c') ! i"
      using assms True
      by (simp add: nth_column nth_set_cell nth_list_update length_column)
  qed
qed

lemma gravity_col_column:
  assumes "wf_grid g" and "c < COLS" and "n \<le> ROWS"
    and "drop n (column g c) = replicate k (- 1) @ ys" and "- 1 \<notin> set ys"
    and "e = int (n + k) - 1"
  shows "column (gravity_col c n e g) c
           = replicate (k + length (filter (\<lambda>v. v = - 1) (take n (column g c)))) (- 1)
             @ filter (\<lambda>v. v \<noteq> - 1) (take n (column g c)) @ ys
       \<and> wf_grid (gravity_col c n e g)
       \<and> (\<forall>c'. c' \<noteq> c \<longrightarrow> column (gravity_col c n e g) c' = column g c')"
  using assms
proof (induction n arbitrary: g k ys e)
  case 0
  then show ?case by simp
next
  case (Suc row)
  let ?xs = "column g c"
  let ?v = "g ! row ! c"
  from Suc.prems have row: "row < ROWS" by simp
  have v: "?xs ! row = ?v" using row by (rule nth_column)
  have len: "length ?xs = ROWS" by (rule length_column)
  have dropr: "drop row ?xs = ?v # replicate k (- 1) @ ys"
    using Suc.prems(4) row v len by (simp add: Cons_nth_drop_Suc [symmetric])
  have taker: "take (Suc row) ?xs = take row ?xs @ [?v]"
    using row v len by (simp add: take_Suc_conv_app_nth)
  have rle: "row \<le> ROWS" using row by simp
  show ?case
  proof (cases "?v = - 1")
    case True
    have d: "drop row ?xs = replicate (Suc k) (- 1) @ ys"
      using dropr True by simp
    have e': "e = int (row + Suc k) - 1"
      using Suc.prems(6) by simp
    have unfold: "gravity_col c (Suc row) e g = gravity_col c row e g"
      using True by simp
    have f: "filter (\<lambda>v. v = - 1) (take (Suc row) ?xs) = filter (\<lambda>v. v = - 1) (take row ?xs) @ [- 1]"
      "filter (\<lambda>v. v \<noteq> - 1) (take (Suc row) ?xs) = filter (\<lambda>v. v \<noteq> - 1) (take row ?xs)"
      using True by (simp_all add: taker)
    from Suc.IH [OF Suc.prems(1,2) rle d Suc.prems(5) e']
    show ?thesis
      unfolding unfold f by simp
  next
    case False
    have f: "filter (\<lambda>v. v = - 1) (take (Suc row) ?xs) = filter (\<lambda>v. v = - 1) (take row ?xs)"
      "filter (\<lambda>v. v \<noteq> - 1) (take (Suc row) ?xs) = filter (\<lambda>v. v \<noteq> - 1) (take row ?xs) @ [?v]"
      using False by (simp_all add: taker)
    have ys': "- 1 \<notin> set (?v # ys)"
      using False Suc.prems(5) by simp
    show ?thesis
    proof (cases "int row = e")
      case True
      with Suc.prems(6) have k: "k = 0" by simp
      have d: "drop row ?xs = replicate k (- 1) @ (?v # ys)"
        using dropr k by simp
      have e': "e - 1 = int (row + k) - 1"
        using Suc.prems(6) by simp
      have unfold: "gravity_col c (Suc row) e g = gravity_col c row (e - 1) g"
        using True False by simp
      from Suc.IH [OF Suc.prems(1,2) rle d ys' e']
      show ?thesis
        unfolding unfold f by simp
    next
      case ne: False
      with Suc.prems(6) obtain j where k: "k = Suc j"
        by (cases k) auto
      have e: "nat e = row + k"
        using Suc.prems(6) by simp
      let ?g' = "set_cell (set_cell g (nat e) c ?v) row c (- 1)"
      have unfold: "gravity_col c (Suc row) e g = gravity_col c row (e - 1) ?g'"
        using ne False by simp
      have wf': "wf_grid ?g'"
        using Suc.prems(1) by (simp add: wf_grid_set_cell)
      have col': "column ?g' c = ?xs[row + k := ?v, row := - 1]"
        using Suc.prems(1,2) e by (simp add: column_set_cell wf_grid_set_cell)
      have other: "column ?g' c' = column g c'" if "c' \<noteq> c" for c'
        using Suc.prems(1,2) that by (simp add: column_set_cell wf_grid_set_cell)
      define A where "A = take row ?xs"
      have lenA: "length A = row"
        using row len by (simp add: A_def)
      have "?xs = A @ drop row ?xs"
        by (simp add: A_def)
      then have xs: "?xs = (A @ ?v # replicate j (- 1)) @ (- 1) # ys"
        using dropr k by (simp add: replicate_append_same)
      have l1: "length (A @ ?v # replicate j (- 1)) = row + k"
        using lenA k by simp
      have "?xs[row + k := ?v] = (A @ ?v # replicate j (- 1)) @ ?v # ys"
        by (subst xs, subst l1 [symmetric], rule list_update_length)
      then have u1: "?xs[row + k := ?v] = A @ ?v # (replicate j (- 1) @ ?v # ys)"
        by simp
      have "(A @ ?v # (replicate j (- 1) @ ?v # ys))[row := - 1]
          = A @ (- 1) # (replicate j (- 1) @ ?v # ys)"
        by (subst lenA [symmetric], rule list_update_length)
      then have col'': "column ?g' c = A @ replicate k (- 1) @ (?v # ys)"
        using col' u1 k by simp
      have t: "take row (column ?g' c) = take row ?xs"
        using col'' lenA by (simp add: A_def)
      have d: "drop row (column ?g' c) = replicate k (- 1) @ (?v # ys)"
        using col'' lenA by simp
      have e': "e - 1 = int (row + k) - 1"
        using Suc.prems(6) by simp
      from Suc.IH [OF wf' Suc.prems(2) rle d ys' e']
      have "column (gravity_col c row (e - 1) ?g') c
           = replicate (k + length (filter (\<lambda>v. v = - 1) (take row ?xs))) (- 1)
             @ filter (\<lambda>v. v \<noteq> - 1) (take row ?xs) @ ?v # ys
       \<and> wf_grid (gravity_col c row (e - 1) ?g')
       \<and> (\<forall>c'. c' \<noteq> c \<longrightarrow> column (gravity_col c row (e - 1) ?g') c' = column ?g' c')"
        unfolding t .
      with other show ?thesis
        unfolding unfold f by simp
    qed
  qed
qed


lemma filter_eq_replicate: "filter (\<lambda>v. v = a) xs = replicate (length (filter (\<lambda>v. v = a) xs)) a"
  by (induction xs) simp_all

lemma mset_compact:
  "mset (replicate (length (filter (\<lambda>v. v = a) xs)) a @ filter (\<lambda>v. v \<noteq> a) xs) = mset xs"
proof -
  have "mset (replicate (length (filter (\<lambda>v. v = a) xs)) a) = mset (filter (\<lambda>v. v = a) xs)"
    using filter_eq_replicate [of a xs] by simp
  then show ?thesis
    by (simp add: union_commute)
qed

lemma gravity_col_whole:
  assumes "wf_grid g" and "c < COLS"
  shows "column (gravity_col c ROWS (int ROWS - 1) g) c
           = replicate (length (filter (\<lambda>v. v = - 1) (column g c))) (- 1)
             @ filter (\<lambda>v. v \<noteq> - 1) (column g c)
       \<and> wf_grid (gravity_col c ROWS (int ROWS - 1) g)
       \<and> (\<forall>c'. c' \<noteq> c \<longrightarrow> column (gravity_col c ROWS (int ROWS - 1) g) c' = column g c')"
proof -
  have d: "drop ROWS (column g c) = replicate 0 (- 1) @ []"
    by (simp add: length_column)
  have e: "int ROWS - 1 = int (ROWS + 0) - 1"
    by simp
  from gravity_col_column [OF assms order_refl d _ e] show ?thesis
    by (simp add: length_column)
qed

lemma fold_gravity_col:
  assumes "wf_grid g" and "\<forall>c\<in>set cs. c < COLS" and "distinct cs"
  shows "wf_grid (fold (\<lambda>col. gravity_col col ROWS (int ROWS - 1)) cs g)
       \<and> (\<forall>c. column (fold (\<lambda>col. gravity_col col ROWS (int ROWS - 1)) cs g) c
             = (if c \<in> set cs
                then replicate (length (filter (\<lambda>v. v = - 1) (column g c))) (- 1)
                     @ filter (\<lambda>v. v \<noteq> - 1) (column g c)
                else column g c))"
  using assms
proof (induction cs arbitrary: g)
  case Nil
  then show ?case by simp
next
  case (Cons a cs)
  let ?g1 = "gravity_col a ROWS (int ROWS - 1) g"
  from Cons.prems have a: "a < COLS" and cs: "\<forall>c\<in>set cs. c < COLS"
    and na: "a \<notin> set cs" and dcs: "distinct cs"
    by simp_all
  from gravity_col_whole [OF Cons.prems(1) a] have
    g1a: "column ?g1 a = replicate (length (filter (\<lambda>v. v = - 1) (column g a))) (- 1)
             @ filter (\<lambda>v. v \<noteq> - 1) (column g a)"
    and wf1: "wf_grid ?g1"
    and g1o: "\<And>c'. c' \<noteq> a \<Longrightarrow> column ?g1 c' = column g c'"
    by simp_all
  from Cons.IH [OF wf1 cs dcs] have
    wf2: "wf_grid (fold (\<lambda>col. gravity_col col ROWS (int ROWS - 1)) cs ?g1)"
    and cols: "\<And>c. column (fold (\<lambda>col. gravity_col col ROWS (int ROWS - 1)) cs ?g1) c
             = (if c \<in> set cs
                then replicate (length (filter (\<lambda>v. v = - 1) (column ?g1 c))) (- 1)
                     @ filter (\<lambda>v. v \<noteq> - 1) (column ?g1 c)
                else column ?g1 c)"
    by simp_all
  show ?case
  proof (intro conjI allI)
    show "wf_grid (fold (\<lambda>col. gravity_col col ROWS (int ROWS - 1)) (a # cs) g)"
      using wf2 by simp
  next
    fix c
    show "column (fold (\<lambda>col. gravity_col col ROWS (int ROWS - 1)) (a # cs) g) c
             = (if c \<in> set (a # cs)
                then replicate (length (filter (\<lambda>v. v = - 1) (column g c))) (- 1)
                     @ filter (\<lambda>v. v \<noteq> - 1) (column g c)
                else column g c)"
    proof (cases "c = a")
      case True
      with na cols [of a] g1a show ?thesis by simp
    next
      case False
      with cols [of c] g1o [of c] show ?thesis by simp
    qed
  qed
qed

lemma applyGravity_column:
  assumes "wf_grid g" and "col < COLS"
  shows "column (applyGravity g) col
           = replicate (length (filter (\<lambda>v. v = - 1) (column g col))) (- 1)
             @ filter (\<lambda>v. v \<noteq> - 1) (column g col)"
    and "wf_grid (applyGravity g)"
  using fold_gravity_col [of g "[0..<COLS]"] assms by (simp_all add: applyGravity_def)

subsection \<open>What the match detector finds\<close>

lemma set_set_add: "set (set_add p ms) = insert p (set ms)"
  by (auto simp add: set_add_def)

lemma set_fold_set_add: "set (fold (\<lambda>c. set_add (f c)) cs ms) = set ms \<union> f ` set cs"
  by (induction cs arbitrary: ms) (auto simp add: set_set_add)

lemma set_add_row_run:
  "set (add_row_run row col e ms) = set ms \<union> (\<lambda>c. (row, c)) ` {col..e}"
  unfolding add_row_run_def by (auto simp add: set_fold_set_add)

lemma set_add_col_run:
  "set (add_col_run col row e ms) = set ms \<union> (\<lambda>r. (r, col)) ` {row..e}"
  unfolding add_col_run_def by (auto simp add: set_fold_set_add)

lemma extend_row_lt: "m < COLS \<Longrightarrow> extend_row g row t m < COLS"
  by (induction g row t m rule: extend_row.induct) (subst extend_row.simps, auto)

lemma extend_col_lt: "m < ROWS \<Longrightarrow> extend_col g col t m < ROWS"
  by (induction g col t m rule: extend_col.induct) (subst extend_col.simps, auto)

lemma extend_row_eq: "m < c \<Longrightarrow> c \<le> extend_row g row t m \<Longrightarrow> g ! row ! c = t"
proof (induction g row t m rule: extend_row.induct)
  case (1 g row t m)
  show ?case
  proof (cases "m + 1 < COLS \<and> g ! row ! (m + 1) = t")
    case True
    with "1.prems" have le: "c \<le> extend_row g row t (m + 1)"
      by (subst (asm) extend_row.simps) simp
    show ?thesis
    proof (cases "c = m + 1")
      case True
      with \<open>m + 1 < COLS \<and> g ! row ! (m + 1) = t\<close> show ?thesis by simp
    next
      case False
      with "1.prems"(1) have "m + 1 < c" by simp
      from "1.IH" [OF True this le] show ?thesis .
    qed
  next
    case False
    with "1.prems" show ?thesis
      by (subst (asm) extend_row.simps) (auto split: if_splits)
  qed
qed

lemma extend_col_eq: "m < r \<Longrightarrow> r \<le> extend_col g col t m \<Longrightarrow> g ! r ! col = t"
proof (induction g col t m rule: extend_col.induct)
  case (1 g col t m)
  show ?case
  proof (cases "m + 1 < ROWS \<and> g ! (m + 1) ! col = t")
    case True
    with "1.prems" have le: "r \<le> extend_col g col t (m + 1)"
      by (subst (asm) extend_col.simps) simp
    show ?thesis
    proof (cases "r = m + 1")
      case True
      with \<open>m + 1 < ROWS \<and> g ! (m + 1) ! col = t\<close> show ?thesis by simp
    next
      case False
      with "1.prems"(1) have "m + 1 < r" by simp
      from "1.IH" [OF True this le] show ?thesis .
    qed
  next
    case False
    with "1.prems" show ?thesis
      by (subst (asm) extend_col.simps) (auto split: if_splits)
  qed
qed

text \<open>Every cell of a detected run lies in a window of three equal cells of the run.\<close>

lemma row_run_cells:
  assumes "row_triple g row col" and "col \<le> c"
    and "c \<le> extend_row g row (g ! row ! col) (col + 2)"
  shows "c < COLS \<and> in_row_run g row c"
proof -
  let ?t = "g ! row ! col" and ?e = "extend_row g row (g ! row ! col) (col + 2)"
  from assms(1) have tr: "col + 2 < COLS" "g ! row ! (col + 1) = ?t" "g ! row ! (col + 2) = ?t"
    by (simp_all add: row_triple_def)
  have e: "?e < COLS" using tr(1) by (rule extend_row_lt)
  have cell: "g ! row ! x = ?t" if "col \<le> x" "x \<le> ?e" for x
  proof (cases "col + 2 < x")
    case True
    then show ?thesis using that(2) by (rule extend_row_eq)
  next
    case False
    with that(1) have "x = col \<or> x = col + 1 \<or> x = col + 2" by auto
    with tr show ?thesis by auto
  qed
  have "c < COLS" using assms(3) e by simp
  moreover have "in_row_run g row c"
  proof (cases "col + 2 \<le> c")
    case True
    define d where "d = c - 2"
    have d: "c = d + 2" and cd: "col \<le> d"
      using True by (simp_all add: d_def)
    have "row_triple g row d"
      using d cd assms(3) e cell [of d] cell [of "d + 1"] cell [of "d + 2"]
      by (simp add: row_triple_def)
    moreover have "g ! row ! d = g ! row ! c"
      using d cd assms(3) cell [of d] cell [of c] by simp
    ultimately show ?thesis
      unfolding in_row_run_def using d by (intro bexI [of _ d]) simp_all
  next
    case False
    have "g ! row ! col = g ! row ! c"
      using assms(2,3) cell [of c] by simp
    with assms(1) show ?thesis
      unfolding in_row_run_def using False assms(2) by (intro bexI [of _ col]) simp_all
  qed
  ultimately show ?thesis ..
qed


lemma col_run_cells:
  assumes "col_triple g row col" and "row \<le> r"
    and "r \<le> extend_col g col (g ! row ! col) (row + 2)"
  shows "r < ROWS \<and> in_col_run g r col"
proof -
  let ?t = "g ! row ! col" and ?e = "extend_col g col (g ! row ! col) (row + 2)"
  from assms(1) have tr: "row + 2 < ROWS" "g ! (row + 1) ! col = ?t" "g ! (row + 2) ! col = ?t"
    by (simp_all add: col_triple_def)
  have e: "?e < ROWS" using tr(1) by (rule extend_col_lt)
  have cell: "g ! x ! col = ?t" if "row \<le> x" "x \<le> ?e" for x
  proof (cases "row + 2 < x")
    case True
    then show ?thesis using that(2) by (rule extend_col_eq)
  next
    case False
    with that(1) have "x = row \<or> x = row + 1 \<or> x = row + 2" by auto
    with tr show ?thesis by auto
  qed
  have "r < ROWS" using assms(3) e by simp
  moreover have "in_col_run g r col"
  proof (cases "row + 2 \<le> r")
    case True
    define d where "d = r - 2"
    have d: "r = d + 2" and rd: "row \<le> d"
      using True by (simp_all add: d_def)
    have "col_triple g d col"
      using d rd assms(3) e cell [of d] cell [of "d + 1"] cell [of "d + 2"]
      by (simp add: col_triple_def)
    moreover have "g ! d ! col = g ! r ! col"
      using d rd assms(3) cell [of d] cell [of r] by simp
    ultimately show ?thesis
      unfolding in_col_run_def using d by (intro bexI [of _ d]) simp_all
  next
    case False
    have "g ! row ! col = g ! r ! col"
      using assms(2,3) cell [of r] by simp
    with assms(1) show ?thesis
      unfolding in_col_run_def using False assms(2) by (intro bexI [of _ row]) simp_all
  qed
  ultimately show ?thesis ..
qed

lemma scan_row_unfold:
  "scan_row g row col ms =
     (if row_triple g row col
      then scan_row g row (extend_row g row (g ! row ! col) (col + 2) + 1)
             (add_row_run row col (extend_row g row (g ! row ! col) (col + 2)) ms)
      else if col < COLS - 2 then scan_row g row (col + 1) ms else ms)"
  by (subst scan_row.simps) (auto simp add: row_triple_def Let_def)

lemma scan_col_unfold:
  "scan_col g col row ms =
     (if col_triple g row col
      then scan_col g col (extend_col g col (g ! row ! col) (row + 2) + 1)
             (add_col_run col row (extend_col g col (g ! row ! col) (row + 2)) ms)
      else if row < ROWS - 2 then scan_col g col (row + 1) ms else ms)"
  by (subst scan_col.simps) (auto simp add: col_triple_def Let_def)

lemma scan_row_mono: "set ms \<subseteq> set (scan_row g row col ms)"
proof (induction g row col ms rule: scan_row.induct)
  case (1 g row col ms)
  show ?case
  proof (cases "row_triple g row col")
    case True
    then have c: "col < COLS - 2"
      and t: "g ! row ! (col + 1) = g ! row ! col \<and> g ! row ! (col + 2) = g ! row ! col"
      by (auto simp add: row_triple_def)
    from "1.IH"(1) [OF c t refl] True show ?thesis
      by (subst scan_row_unfold) (auto simp add: set_add_row_run)
  next
    case False
    show ?thesis
    proof (cases "col < COLS - 2")
      case True
      with False have "\<not> (g ! row ! (col + 1) = g ! row ! col
          \<and> g ! row ! (col + 2) = g ! row ! col)"
        by (auto simp add: row_triple_def)
      from "1.IH"(2) [OF True this] False True show ?thesis
        by (subst scan_row_unfold) simp
    next
      case False
      with \<open>\<not> row_triple g row col\<close> show ?thesis
        by (subst scan_row_unfold) simp
    qed
  qed
qed

lemma scan_col_mono: "set ms \<subseteq> set (scan_col g col row ms)"
proof (induction g col row ms rule: scan_col.induct)
  case (1 g col row ms)
  show ?case
  proof (cases "col_triple g row col")
    case True
    then have c: "row < ROWS - 2"
      and t: "g ! (row + 1) ! col = g ! row ! col \<and> g ! (row + 2) ! col = g ! row ! col"
      by (auto simp add: col_triple_def)
    from "1.IH"(1) [OF c t refl] True show ?thesis
      by (subst scan_col_unfold) (auto simp add: set_add_col_run)
  next
    case False
    show ?thesis
    proof (cases "row < ROWS - 2")
      case True
      with False have "\<not> (g ! (row + 1) ! col = g ! row ! col
          \<and> g ! (row + 2) ! col = g ! row ! col)"
        by (auto simp add: col_triple_def)
      from "1.IH"(2) [OF True this] False True show ?thesis
        by (subst scan_col_unfold) simp
    next
      case False
      with \<open>\<not> col_triple g row col\<close> show ?thesis
        by (subst scan_col_unfold) simp
    qed
  qed
qed

lemma scan_row_sound:
  "p \<in> set (scan_row g row col ms) \<Longrightarrow>
     p \<in> set ms \<or> (fst p = row \<and> snd p < COLS \<and> in_row_run g row (snd p))"
proof (induction g row col ms rule: scan_row.induct)
  case (1 g row col ms)
  show ?case
  proof (cases "row_triple g row col")
    case True
    let ?e = "extend_row g row (g ! row ! col) (col + 2)"
    from True have c: "col < COLS - 2"
      and t: "g ! row ! (col + 1) = g ! row ! col \<and> g ! row ! (col + 2) = g ! row ! col"
      by (auto simp add: row_triple_def)
    from "1.prems" True have "p \<in> set (scan_row g row (?e + 1) (add_row_run row col ?e ms))"
      by (subst (asm) scan_row_unfold) simp
    from "1.IH"(1) [OF c t refl this]
    have "p \<in> set (add_row_run row col ?e ms)
        \<or> (fst p = row \<and> snd p < COLS \<and> in_row_run g row (snd p))" .
    then show ?thesis
    proof
      assume "p \<in> set (add_row_run row col ?e ms)"
      then have "p \<in> set ms \<or> (\<exists>c. p = (row, c) \<and> col \<le> c \<and> c \<le> ?e)"
        by (auto simp add: set_add_row_run)
      then show ?thesis
        using row_run_cells [OF True] by auto
    qed simp
  next
    case False
    show ?thesis
    proof (cases "col < COLS - 2")
      case True
      with False have n: "\<not> (g ! row ! (col + 1) = g ! row ! col
          \<and> g ! row ! (col + 2) = g ! row ! col)"
        by (auto simp add: row_triple_def)
      from "1.prems" False True have "p \<in> set (scan_row g row (col + 1) ms)"
        by (subst (asm) scan_row_unfold) simp
      from "1.IH"(2) [OF True n this] show ?thesis .
    next
      case False
      with "1.prems" \<open>\<not> row_triple g row col\<close> show ?thesis
        by (subst (asm) scan_row_unfold) simp
    qed
  qed
qed

lemma scan_col_sound:
  "p \<in> set (scan_col g col row ms) \<Longrightarrow>
     p \<in> set ms \<or> (snd p = col \<and> fst p < ROWS \<and> in_col_run g (fst p) col)"
proof (induction g col row ms rule: scan_col.induct)
  case (1 g col row ms)
  show ?case
  proof (cases "col_triple g row col")
    case True
    let ?e = "extend_col g col (g ! row ! col) (row + 2)"
    from True have c: "row < ROWS - 2"
      and t: "g ! (row + 1) ! col = g ! row ! col \<and> g ! (row + 2) ! col = g ! row ! col"
      by (auto simp add: col_triple_def)
    from "1.prems" True have "p \<in> set (scan_col g col (?e + 1) (add_col_run col row ?e ms))"
      by (subst (asm) scan_col_unfold) simp
    from "1.IH"(1) [OF c t refl this]
    have "p \<in> set (add_col_run col row ?e ms)
        \<or> (snd p = col \<and> fst p < ROWS \<and> in_col_run g (fst p) col)" .
    then show ?thesis
    proof
      assume "p \<in> set (add_col_run col row ?e ms)"
      then have "p \<in> set ms \<or> (\<exists>r. p = (r, col) \<and> row \<le> r \<and> r \<le> ?e)"
        by (auto simp add: set_add_col_run)
      then show ?thesis
        using col_run_cells [OF True] by auto
    qed simp
  next
    case False
    show ?thesis
    proof (cases "row < ROWS - 2")
      case True
      with False have n: "\<not> (g ! (row + 1) ! col = g ! row ! col
          \<and> g ! (row + 2) ! col = g ! row ! col)"
        by (auto simp add: col_triple_def)
      from "1.prems" False True have "p \<in> set (scan_col g col (row + 1) ms)"
        by (subst (asm) scan_col_unfold) simp
      from "1.IH"(2) [OF True n this] show ?thesis .
    next
      case False
      with "1.prems" \<open>\<not> col_triple g row col\<close> show ?thesis
        by (subst (asm) scan_col_unfold) simp
    qed
  qed
qed


lemma scan_row_empty:
  "scan_row g row col ms = [] \<Longrightarrow> ms = [] \<and> (\<forall>c\<ge>col. \<not> row_triple g row c)"
proof (induction g row col ms rule: scan_row.induct)
  case (1 g row col ms)
  show ?case
  proof (cases "row_triple g row col")
    case True
    let ?e = "extend_row g row (g ! row ! col) (col + 2)"
    have "col \<le> ?e"
      using extend_row_ge [of "col + 2" g row "g ! row ! col"] by simp
    then have "(row, col) \<in> set (add_row_run row col ?e ms)"
      by (simp add: set_add_row_run)
    then have "(row, col) \<in> set (scan_row g row (?e + 1) (add_row_run row col ?e ms))"
      using scan_row_mono by blast
    with True have "(row, col) \<in> set (scan_row g row col ms)"
      by (subst scan_row_unfold) simp
    with "1.prems" show ?thesis by simp
  next
    case False
    show ?thesis
    proof (cases "col < COLS - 2")
      case True
      with False have n: "\<not> (g ! row ! (col + 1) = g ! row ! col
          \<and> g ! row ! (col + 2) = g ! row ! col)"
        by (auto simp add: row_triple_def)
      from "1.prems" False True have "scan_row g row (col + 1) ms = []"
        by (subst (asm) scan_row_unfold) simp
      from "1.IH"(2) [OF True n this] have "ms = []"
        and later: "\<forall>c\<ge>col + 1. \<not> row_triple g row c"
        by simp_all
      have "\<not> row_triple g row c" if "col \<le> c" for c
      proof (cases "c = col")
        case True
        with False show ?thesis by simp
      next
        case False
        with that later show ?thesis by simp
      qed
      with \<open>ms = []\<close> show ?thesis by simp
    next
      case nc: False
      with "1.prems" False have "ms = []"
        by (subst (asm) scan_row_unfold) simp
      moreover have "\<not> row_triple g row c" if "col \<le> c" for c
        using nc that by (auto simp add: row_triple_def)
      ultimately show ?thesis by simp
    qed
  qed
qed

lemma scan_col_empty:
  "scan_col g col row ms = [] \<Longrightarrow> ms = [] \<and> (\<forall>r\<ge>row. \<not> col_triple g r col)"
proof (induction g col row ms rule: scan_col.induct)
  case (1 g col row ms)
  show ?case
  proof (cases "col_triple g row col")
    case True
    let ?e = "extend_col g col (g ! row ! col) (row + 2)"
    have "row \<le> ?e"
      using extend_col_ge [of "row + 2" g col "g ! row ! col"] by simp
    then have "(row, col) \<in> set (add_col_run col row ?e ms)"
      by (simp add: set_add_col_run)
    then have "(row, col) \<in> set (scan_col g col (?e + 1) (add_col_run col row ?e ms))"
      using scan_col_mono by blast
    with True have "(row, col) \<in> set (scan_col g col row ms)"
      by (subst scan_col_unfold) simp
    with "1.prems" show ?thesis by simp
  next
    case False
    show ?thesis
    proof (cases "row < ROWS - 2")
      case True
      with False have n: "\<not> (g ! (row + 1) ! col = g ! row ! col
          \<and> g ! (row + 2) ! col = g ! row ! col)"
        by (auto simp add: col_triple_def)
      from "1.prems" False True have "scan_col g col (row + 1) ms = []"
        by (subst (asm) scan_col_unfold) simp
      from "1.IH"(2) [OF True n this] have "ms = []"
        and later: "\<forall>r\<ge>row + 1. \<not> col_triple g r col"
        by simp_all
      have "\<not> col_triple g r col" if "row \<le> r" for r
      proof (cases "r = row")
        case True
        with False show ?thesis by simp
      next
        case False
        with that later show ?thesis by simp
      qed
      with \<open>ms = []\<close> show ?thesis by simp
    next
      case nc: False
      with "1.prems" False have "ms = []"
        by (subst (asm) scan_col_unfold) simp
      moreover have "\<not> col_triple g r col" if "row \<le> r" for r
        using nc that by (auto simp add: col_triple_def)
      ultimately show ?thesis by simp
    qed
  qed
qed

lemma fold_scan_row_sound:
  "p \<in> set (fold (\<lambda>row. scan_row g row 0) rows ms) \<Longrightarrow>
     p \<in> set ms \<or> (fst p \<in> set rows \<and> snd p < COLS \<and> in_row_run g (fst p) (snd p))"
proof (induction rows arbitrary: ms)
  case Nil
  then show ?case by simp
next
  case (Cons a rows)
  from Cons.prems have "p \<in> set (fold (\<lambda>row. scan_row g row 0) rows (scan_row g a 0 ms))"
    by simp
  from Cons.IH [OF this] scan_row_sound [of p g a 0 ms] show ?case
    by auto
qed

lemma fold_scan_col_sound:
  "p \<in> set (fold (\<lambda>col. scan_col g col 0) cols ms) \<Longrightarrow>
     p \<in> set ms \<or> (snd p \<in> set cols \<and> fst p < ROWS \<and> in_col_run g (fst p) (snd p))"
proof (induction cols arbitrary: ms)
  case Nil
  then show ?case by simp
next
  case (Cons a cols)
  from Cons.prems have "p \<in> set (fold (\<lambda>col. scan_col g col 0) cols (scan_col g a 0 ms))"
    by simp
  from Cons.IH [OF this] scan_col_sound [of p g a 0 ms] show ?case
    by auto
qed

lemma fold_scan_row_empty:
  "fold (\<lambda>row. scan_row g row 0) rows ms = [] \<Longrightarrow>
     ms = [] \<and> (\<forall>row\<in>set rows. \<forall>c. \<not> row_triple g row c)"
proof (induction rows arbitrary: ms)
  case Nil
  then show ?case by simp
next
  case (Cons a rows)
  from Cons.prems have "fold (\<lambda>row. scan_row g row 0) rows (scan_row g a 0 ms) = []"
    by simp
  from Cons.IH [OF this] scan_row_empty [of g a 0 ms] show ?case
    by auto
qed

lemma fold_scan_col_empty:
  "fold (\<lambda>col. scan_col g col 0) cols ms = [] \<Longrightarrow>
     ms = [] \<and> (\<forall>col\<in>set cols. \<forall>r. \<not> col_triple g r col)"
proof (induction cols arbitrary: ms)
  case Nil
  then show ?case by simp
next
  case (Cons a cols)
  from Cons.prems have "fold (\<lambda>col. scan_col g col 0) cols (scan_col g a 0 ms) = []"
    by simp
  from Cons.IH [OF this] scan_col_empty [of g a 0 ms] show ?case
    by auto
qed

lemma findAllMatches_sound:
  assumes "p \<in> set (findAllMatches g)"
  shows "fst p < ROWS \<and> snd p < COLS
       \<and> (in_row_run g (fst p) (snd p) \<or> in_col_run g (fst p) (snd p))"
proof -
  from assms have "p \<in> set (fold (\<lambda>col. scan_col g col 0) [0..<COLS]
      (fold (\<lambda>row. scan_row g row 0) [0..<ROWS] []))"
    by (simp add: findAllMatches_def Let_def)
  from fold_scan_col_sound [OF this] show ?thesis
  proof
    assume "p \<in> set (fold (\<lambda>row. scan_row g row 0) [0..<ROWS] [])"
    from fold_scan_row_sound [OF this] show ?thesis by simp
  qed simp
qed

lemma findAllMatches_empty:
  assumes "findAllMatches g = []"
  shows "(\<forall>row<ROWS. \<forall>c. \<not> row_triple g row c) \<and> (\<forall>col<COLS. \<forall>r. \<not> col_triple g r col)"
proof -
  from assms have v: "fold (\<lambda>col. scan_col g col 0) [0..<COLS]
      (fold (\<lambda>row. scan_row g row 0) [0..<ROWS] []) = []"
    by (simp add: findAllMatches_def Let_def)
  from fold_scan_col_empty [OF v] fold_scan_row_empty [of g "[0..<ROWS]" "[]"]
  show ?thesis by simp
qed

subsection \<open>Removal and refill\<close>

lemma no_empty_iff:
  "wf_grid g \<Longrightarrow> no_empty g \<longleftrightarrow> (\<forall>r<ROWS. \<forall>c<COLS. g ! r ! c \<noteq> - 1)"
  by (auto simp add: no_empty_def wf_grid_def list_all_length)

lemma wf_grid_removeMatches: "wf_grid g \<Longrightarrow> wf_grid (removeMatches ms g)"
  unfolding removeMatches_def
  by (induction ms arbitrary: g) (simp_all add: wf_grid_set_cell)

lemma random_gem_nonneg: "0 \<le> rnd n \<Longrightarrow> 0 \<le> random_gem rnd n"
  by (simp add: random_gem_def NUM_GEM_TYPES_def)

lemma fill_cell_facts:
  assumes "wf_grid (fst gn)" and "row < ROWS" and "col < COLS" and "\<forall>n. 0 \<le> rnd n"
  shows "wf_grid (fst (fill_cell rnd col row gn))"
    and "fst (fill_cell rnd col row gn) ! row ! col \<noteq> - 1"
    and "fst gn ! r ! c \<noteq> - 1 \<Longrightarrow> fst (fill_cell rnd col row gn) ! r ! c = fst gn ! r ! c"
proof -
  have "random_gem rnd (snd gn) \<noteq> - 1"
    using random_gem_nonneg [of rnd "snd gn"] assms(4) by auto
  then show "fst (fill_cell rnd col row gn) ! row ! col \<noteq> - 1"
    using assms(1-3) by (simp add: fill_cell_def nth_set_cell)
  show "wf_grid (fst (fill_cell rnd col row gn))"
    using assms(1) by (simp add: fill_cell_def wf_grid_set_cell)
  show "fst (fill_cell rnd col row gn) ! r ! c = fst gn ! r ! c" if "fst gn ! r ! c \<noteq> - 1"
    using assms(1-3) that by (auto simp add: fill_cell_def nth_set_cell)
qed

lemma fold_fill_cell_facts:
  assumes "wf_grid (fst gn)" and "\<forall>row\<in>set rows. row < ROWS" and "col < COLS"
    and "\<forall>n. 0 \<le> rnd n"
  shows "wf_grid (fst (fold (fill_cell rnd col) rows gn))
       \<and> (\<forall>row\<in>set rows. fst (fold (fill_cell rnd col) rows gn) ! row ! col \<noteq> - 1)
       \<and> (\<forall>r c. fst gn ! r ! c \<noteq> - 1 \<longrightarrow>
             fst (fold (fill_cell rnd col) rows gn) ! r ! c = fst gn ! r ! c)"
  using assms(1,2)
proof (induction rows arbitrary: gn)
  case Nil
  then show ?case by simp
next
  case (Cons a rows)
  let ?gn1 = "fill_cell rnd col a gn"
  from Cons.prems have a: "a < ROWS" and rows: "\<forall>row\<in>set rows. row < ROWS"
    by simp_all
  note f = fill_cell_facts [OF Cons.prems(1) a assms(3,4)]
  from Cons.IH [OF f(1) rows] have
    wf: "wf_grid (fst (fold (fill_cell rnd col) rows ?gn1))"
    and filled: "\<forall>row\<in>set rows. fst (fold (fill_cell rnd col) rows ?gn1) ! row ! col \<noteq> - 1"
    and kept: "\<And>r c. fst ?gn1 ! r ! c \<noteq> - 1 \<Longrightarrow>
             fst (fold (fill_cell rnd col) rows ?gn1) ! r ! c = fst ?gn1 ! r ! c"
    by simp_all
  have "fst (fold (fill_cell rnd col) rows ?gn1) ! a ! col \<noteq> - 1"
    using kept [OF f(2)] f(2) by simp
  moreover have "fst (fold (fill_cell rnd col) rows ?gn1) ! r ! c = fst gn ! r ! c"
    if "fst gn ! r ! c \<noteq> - 1" for r c
    using kept [of r c] f(3) [OF that] that by simp
  ultimately show ?case
    using wf filled by simp
qed

lemma fillEmptySpaces_cols:
  assumes "wf_grid (fst gn)" and "\<forall>col\<in>set cols. col < COLS" and "\<forall>n. 0 \<le> rnd n"
  shows "wf_grid (fst (fold (\<lambda>col. fold (fill_cell rnd col) [0..<ROWS]) cols gn))
       \<and> (\<forall>col\<in>set cols. \<forall>row<ROWS.
             fst (fold (\<lambda>col. fold (fill_cell rnd col) [0..<ROWS]) cols gn) ! row ! col \<noteq> - 1)
       \<and> (\<forall>r c. fst gn ! r ! c \<noteq> - 1 \<longrightarrow>
             fst (fold (\<lambda>col. fold (fill_cell rnd col) [0..<ROWS]) cols gn) ! r ! c
               = fst gn ! r ! c)"
  using assms(1,2)
proof (induction cols arbitrary: gn)
  case Nil
  then show ?case by simp
next
  case (Cons a cols)
  let ?gn1 = "fold (fill_cell rnd a) [0..<ROWS] gn"
  let ?F = "\<lambda>cs gn. fold (\<lambda>col. fold (fill_cell rnd col) [0..<ROWS]) cs gn"
  from Cons.prems have a: "a < COLS" and cols: "\<forall>col\<in>set cols. col < COLS"
    by simp_all
  have rows: "\<forall>row\<in>set [0..<ROWS]. row < ROWS" by simp
  from fold_fill_cell_facts [OF Cons.prems(1) rows a assms(3)] have
    wf1: "wf_grid (fst ?gn1)"
    and filled1: "\<And>row. row < ROWS \<Longrightarrow> fst ?gn1 ! row ! a \<noteq> - 1"
    and kept1: "\<And>r c. fst gn ! r ! c \<noteq> - 1 \<Longrightarrow> fst ?gn1 ! r ! c = fst gn ! r ! c"
    by simp_all
  from Cons.IH [OF wf1 cols] have
    wf: "wf_grid (fst (?F cols ?gn1))"
    and filled: "\<forall>col\<in>set cols. \<forall>row<ROWS. fst (?F cols ?gn1) ! row ! col \<noteq> - 1"
    and kept: "\<And>r c. fst ?gn1 ! r ! c \<noteq> - 1 \<Longrightarrow> fst (?F cols ?gn1) ! r ! c = fst ?gn1 ! r ! c"
    by simp_all
  have "fst (?F cols ?gn1) ! row ! a \<noteq> - 1" if "row < ROWS" for row
    using kept [OF filled1 [OF that]] filled1 [OF that] by simp
  moreover have "fst (?F cols ?gn1) ! r ! c = fst gn ! r ! c" if "fst gn ! r ! c \<noteq> - 1" for r c
    using kept [of r c] kept1 [OF that] that by simp
  ultimately show ?case
    using wf filled by simp
qed

lemma fillEmptySpaces_facts:
  assumes "wf_grid g" and "\<forall>n. 0 \<le> rnd n"
  shows "wf_grid (fst (fillEmptySpaces rnd (g, n)))"
    and "no_empty (fst (fillEmptySpaces rnd (g, n)))"
proof -
  have cols: "\<forall>col\<in>set [0..<COLS]. col < COLS" by simp
  from fillEmptySpaces_cols [of "(g, n)" "[0..<COLS]" rnd] assms cols
  have wf: "wf_grid (fst (fillEmptySpaces rnd (g, n)))"
    and filled: "\<forall>col<COLS. \<forall>row<ROWS. fst (fillEmptySpaces rnd (g, n)) ! row ! col \<noteq> - 1"
    by (simp_all add: fillEmptySpaces_def)
  show "wf_grid (fst (fillEmptySpaces rnd (g, n)))" by fact
  show "no_empty (fst (fillEmptySpaces rnd (g, n)))"
    using filled by (simp add: no_empty_iff [OF wf])
qed

lemma cascade_step_grid:
  assumes "wf_grid (grid st)" and "\<forall>n. 0 \<le> rnd n"
  shows "wf_grid (grid (snd (cascade_step rnd k ms st)))"
    and "no_empty (grid (snd (cascade_step rnd k ms st)))"
proof -
  have "wf_grid (applyGravity (removeMatches ms (grid st)))"
    using assms(1) by (intro fold_gravity_col [THEN conjunct1, of _ "[0..<COLS]", folded applyGravity_def] wf_grid_removeMatches) simp_all
  from fillEmptySpaces_facts [OF this assms(2)]
  show "wf_grid (grid (snd (cascade_step rnd k ms st)))"
    and "no_empty (grid (snd (cascade_step rnd k ms st)))"
    by (simp_all add: cascade_step_fields)
qed

subsection \<open>The scan for a valid move\<close>

lemma candidates_from_start: "candidates_from 0 0 = scan_candidates"
  by (cases "0 < ROWS") (simp_all add: candidates_from_def scan_candidates_def upt_conv_Cons)

lemma candidates_from_next_row:
  "row < ROWS \<Longrightarrow> \<not> col < COLS \<Longrightarrow> candidates_from row col = candidates_from (row + 1) 0"
  by (cases "row + 1 < ROWS") (simp_all add: candidates_from_def upt_conv_Cons)

lemma candidates_from_next_col:
  "row < ROWS \<Longrightarrow> col < COLS \<Longrightarrow>
     candidates_from row col = cell_candidates row col @ candidates_from row (col + 1)"
  by (simp add: candidates_from_def upt_conv_Cons)

lemma find_cell_candidates:
  "find (produces_match g) (cell_candidates row col @ rest) =
     (if col < COLS - 1 \<and> fst (try_move row col row (col + 1) g)
      then Some ((row, col), (row, col + 1))
      else if row < ROWS - 1 \<and> fst (try_move row col (row + 1) col g)
      then Some ((row, col), (row + 1, col))
      else find (produces_match g) rest)"
  by (simp add: cell_candidates_def produces_match_def fst_try_move)

lemma findValidMove_from_step:
  assumes "wf_grid g" and "row < ROWS" and "col < COLS"
  shows "findValidMove_from row col g =
     (if col < COLS - 1 \<and> fst (try_move row col row (col + 1) g)
      then (Some ((row, col), (row, col + 1)), g)
      else if row < ROWS - 1 \<and> fst (try_move row col (row + 1) col g)
      then (Some ((row, col), (row + 1, col)), g)
      else findValidMove_from row (col + 1) g)"
proof -
  have r: "col < COLS - 1 \<Longrightarrow> snd (try_move row col row (col + 1) g) = g"
    using assms by (intro snd_try_move) auto
  have d: "row < ROWS - 1 \<Longrightarrow> snd (try_move row col (row + 1) col g) = g"
    using assms by (intro snd_try_move) auto
  show ?thesis
    using assms(2,3) r d by (subst findValidMove_from.simps) (auto simp add: Let_def)
qed

lemma hasValidMoves_from_step:
  assumes "wf_grid g" and "row < ROWS" and "col < COLS"
  shows "hasValidMoves_from row col g =
     (if col < COLS - 1 \<and> fst (try_move row col row (col + 1) g)
      then (True, g)
      else if row < ROWS - 1 \<and> fst (try_move row col (row + 1) col g)
      then (True, g)
      else hasValidMoves_from row (col + 1) g)"
proof -
  have r: "col < COLS - 1 \<Longrightarrow> snd (try_move row col row (col + 1) g) = g"
    using assms by (intro snd_try_move) auto
  have d: "row < ROWS - 1 \<Longrightarrow> snd (try_move row col (row + 1) col g) = g"
    using assms by (intro snd_try_move) auto
  show ?thesis
    using assms(2,3) r d by (subst hasValidMoves_from.simps) (auto simp add: Let_def)
qed

lemma findValidMove_from_find:
  "wf_grid g \<Longrightarrow>
     fst (findValidMove_from row col g) = find (produces_match g) (candidates_from row col)"
proof (induction row col g rule: findValidMove_from.induct)
  case (1 row col g)
  note wf = "1.prems"
  show ?case
  proof (cases "row < ROWS")
    case False
    then show ?thesis
      by (subst findValidMove_from.simps) (simp add: candidates_from_def)
  next
    case row: True
    show ?thesis
    proof (cases "col < COLS")
      case False
      have "findValidMove_from row col g = findValidMove_from (row + 1) 0 g"
        using row False by (subst findValidMove_from.simps) simp
      with "1.IH"(2) [OF row False wf] candidates_from_next_row [OF row False]
      show ?thesis by simp
    next
      case col: True
      note step = findValidMove_from_step [OF wf row col]
      note cands = candidates_from_next_col [OF row col]
      show ?thesis
      proof (cases "(col < COLS - 1 \<and> fst (try_move row col row (col + 1) g))
          \<or> (row < ROWS - 1 \<and> fst (try_move row col (row + 1) col g))")
        case True
        then show ?thesis
          unfolding step cands find_cell_candidates by auto
      next
        case False
        then have nr: "\<not> (col < COLS - 1 \<and> fst (try_move row col row (col + 1) g))"
          and nd: "\<not> (row < ROWS - 1 \<and> fst (try_move row col (row + 1) col g))"
          by auto
        have x_eq: "(if col < COLS - 1 then snd (try_move row col row (col + 1) g) else g) = g"
          using wf row col by (simp add: snd_try_move)
        have g_eq: "(if row < ROWS - 1 then snd (try_move row col (row + 1) col g) else g) = g"
          using wf row col by (simp add: snd_try_move)
        from "1.IH"(1) [OF row col nr refl, unfolded x_eq, OF nd, unfolded g_eq, OF wf]
        have "fst (findValidMove_from row (col + 1) g)
            = find (produces_match g) (candidates_from row (col + 1))" .
        with nr nd show ?thesis
          unfolding step cands find_cell_candidates by (simp only: if_False)
      qed
    qed
  qed
qed

lemma hasValidMoves_from_find:
  "wf_grid g \<Longrightarrow>
     fst (hasValidMoves_from row col g)
       = (find (produces_match g) (candidates_from row col) \<noteq> None)"
proof (induction row col g rule: hasValidMoves_from.induct)
  case (1 row col g)
  note wf = "1.prems"
  show ?case
  proof (cases "row < ROWS")
    case False
    then show ?thesis
      by (subst hasValidMoves_from.simps) (simp add: candidates_from_def)
  next
    case row: True
    show ?thesis
    proof (cases "col < COLS")
      case False
      have "hasValidMoves_from row col g = hasValidMoves_from (row + 1) 0 g"
        using row False by (subst hasValidMoves_from.simps) simp
      with "1.IH"(2) [OF row False wf] candidates_from_next_row [OF row False]
      show ?thesis by simp
    next
      case col: True
      note step = hasValidMoves_from_step [OF wf row col]
      note cands = candidates_from_next_col [OF row col]
      show ?thesis
      proof (cases "(col < COLS - 1 \<and> fst (try_move row col row (col + 1) g))
          \<or> (row < ROWS - 1 \<and> fst (try_move row col (row + 1) col g))")
        case True
        then show ?thesis
          unfolding step cands find_cell_candidates by auto
      next
        case False
        then have nr: "\<not> (col < COLS - 1 \<and> fst (try_move row col row (col + 1) g))"
          and nd: "\<not> (row < ROWS - 1 \<and> fst (try_move row col (row + 1) col g))"
          by auto
        have x_eq: "(if col < COLS - 1 then snd (try_move row col row (col + 1) g) else g) = g"
          using wf row col by (simp add: snd_try_move)
        have g_eq: "(if row < ROWS - 1 then snd (try_move row col (row + 1) col g) else g) = g"
          using wf row col by (simp add: snd_try_move)
        from "1.IH"(1) [OF row col nr refl, unfolded x_eq, OF nd, unfolded g_eq, OF wf]
        have "fst (hasValidMoves_from row (col + 1) g)
            = (find (produces_match g) (candidates_from row (col + 1)) \<noteq> None)" .
        with nr nd show ?thesis
          unfolding step cands find_cell_candidates by (simp only: if_False)
      qed
    qed
  qed
qed

subsection \<open>The board between two swaps\<close>

lemma wf_grid_fill_cell: "wf_grid (fst gn) \<Longrightarrow> wf_grid (fst (fill_cell rnd col row gn))"
  by (simp add: fill_cell_def wf_grid_set_cell)

lemma wf_grid_fold_fill_cell:
  "wf_grid (fst gn) \<Longrightarrow> wf_grid (fst (fold (fill_cell rnd col) rows gn))"
  by (induction rows arbitrary: gn) (simp_all add: wf_grid_fill_cell)

lemma wf_grid_fold_fill_cols:
  "wf_grid (fst gn) \<Longrightarrow>
     wf_grid (fst (fold (\<lambda>col. fold (fill_cell rnd col) rows) cols gn))"
  by (induction cols arbitrary: gn) (simp_all add: wf_grid_fold_fill_cell)

lemma wf_grid_fillEmptySpaces:
  "wf_grid (fst gn) \<Longrightarrow> wf_grid (fst (fillEmptySpaces rnd gn))"
  unfolding fillEmptySpaces_def by (rule wf_grid_fold_fill_cols)

lemma wf_grid_applyGravity: "wf_grid g \<Longrightarrow> wf_grid (applyGravity g)"
  using fold_gravity_col [of g "[0..<COLS]"] by (simp add: applyGravity_def)

lemma wf_grid_cascade_step:
  assumes "wf_grid (grid st)"
  shows "wf_grid (grid (snd (cascade_step rnd k ms st)))"
proof -
  have "wf_grid (applyGravity (removeMatches ms (grid st)))"
    using assms by (intro wf_grid_applyGravity wf_grid_removeMatches)
  then show ?thesis
    by (simp add: cascade_step_fields wf_grid_fillEmptySpaces)
qed

lemma wf_grid_processMatches_loop:
  assumes "processMatches_loop rnd n ms st = Some st'" and "wf_grid (grid st)"
  shows "wf_grid (grid st')"
proof -
  let ?I = "\<lambda>(n :: int) (ms :: pos list) s. wf_grid (grid s)"
  have "\<exists>n'. ?I n' [] st'"
    by (rule processMatches_loop_invariant [OF assms(1), where I = ?I])
       (simp_all add: assms(2) wf_grid_cascade_step)
  then show ?thesis by simp
qed

lemma wf_grid_unflatten: "wf_grid (unflatten gems)"
  by (simp add: wf_grid_def unflatten_def list_all_iff)

lemma shuffleBoard_valid:
  assumes "shuffleBoard rnd gn = Some gn'"
  shows "wf_grid (fst gn') \<and> fst (hasValidMoves (fst gn'))"
  using assms
proof (induction rnd gn gn' rule: shuffleBoard.raw_induct [rotated 1, consumes 1])
  case (1 shuffle rnd gn gn')
  let ?gn1 = "shuffle_once rnd gn"
  have wf: "wf_grid (fst ?gn1)"
    by (simp add: shuffle_once_def Let_def wf_grid_unflatten)
  then have same: "snd (hasValidMoves (fst ?gn1)) = fst ?gn1"
    by (rule snd_hasValidMoves)
  show ?case
  proof (cases "fst (hasValidMoves (fst ?gn1))")
    case True
    with "1.hyps" same have "gn' = (fst ?gn1, snd ?gn1)"
      by (simp add: Let_def)
    with True wf show ?thesis by simp
  next
    case False
    with "1.hyps" have "shuffle rnd (snd (hasValidMoves (fst ?gn1)), snd ?gn1) = Some gn'"
      by (simp add: Let_def)
    then show ?thesis by (rule "1.IH")
  qed
qed

lemma finish_swap_valid_after:
  assumes "finish_swap rnd st = Some st'" and "wf_grid (grid st)"
  shows "wf_grid (grid st') \<and> fst (hasValidMoves (grid st'))"
proof (cases "fst (hasValidMoves (grid st))")
  case True
  with assms show ?thesis
    by (auto simp add: finish_swap_def Let_def snd_hasValidMoves)
next
  case False
  with assms obtain gn where "shuffleBoard rnd (grid st, draws st) = Some gn"
    and "grid st' = fst gn"
    by (auto simp add: finish_swap_def Let_def snd_hasValidMoves split: option.splits)
  with shuffleBoard_valid [of rnd "(grid st, draws st)" gn] show ?thesis
    by simp
qed

lemma trySwap_valid_after:
  assumes "trySwap levels rnd row1 col1 row2 col2 st = Some (out, st')" and "wf_grid (grid st)"
  shows "wf_grid (grid st') \<and> fst (hasValidMoves (grid st'))"
proof (cases "findAllMatches (swap row1 col1 row2 col2 (grid st)) = []")
  case True
  let ?st3 = "st\<lparr>isProcessing := True, selectedGem := None,
      grid := swap row1 col1 row2 col2 (swap row1 col1 row2 col2 (grid st))\<rparr>"
  from assms(1) True have "finish_swap rnd ?st3 = Some st'"
    by (auto simp add: trySwap_def Let_def deselectGem_eq split: option.splits)
  moreover have "wf_grid (grid ?st3)"
    using assms(2) by (simp add: wf_grid_swap)
  ultimately show ?thesis
    by (rule finish_swap_valid_after)
next
  case False
  let ?ms = "findAllMatches (swap row1 col1 row2 col2 (grid st))"
  let ?st3 = "st\<lparr>isProcessing := True, selectedGem := None,
                 grid := swap row1 col1 row2 col2 (grid st),
                 movesLeft := movesLeft st - 1\<rparr>"
  from assms(1) False obtain st4 where
    run: "processMatches rnd ?ms ?st3 = Some st4"
    and fin: "finish_swap rnd st4 = Some st'"
    by (auto simp add: trySwap_def Let_def deselectGem_eq split: option.splits)
  have "wf_grid (grid ?st3)"
    using assms(2) by (simp add: wf_grid_swap)
  with run have "wf_grid (grid st4)"
    unfolding processMatches_def by (rule wf_grid_processMatches_loop)
  with fin show ?thesis
    by (rule finish_swap_valid_after)
qed

subsection \<open>An accepted swap, step by step\<close>

lemma or0_collect_gem:
  "or0 (gemsCollected (collect_gem p st) t)
     = or0 (gemsCollected st t) + (if grid st ! fst p ! snd p = t then 1 else 0)"
  by (simp add: collect_gem_def Let_def or0_def)

lemma grid_collect_gem: "grid (collect_gem p st) = grid st"
  by (simp add: collect_gem_def Let_def)

lemma or0_fold_collect_gem:
  "or0 (gemsCollected (fold collect_gem ms st) t)
     = or0 (gemsCollected st t) + kind_count (grid st) t ms"
  by (induction ms arbitrary: st)
     (simp_all add: kind_count_def or0_collect_gem grid_collect_gem)

lemma cascade_step_collected:
  "or0 (gemsCollected (snd (cascade_step rnd n ms st)) t)
     = or0 (gemsCollected st t) + kind_count (grid st) t ms"
  by (simp add: cascade_step_def Let_def updateScore_def or0_fold_collect_gem)

lemma cascade_iter_level:
  "fst (snd (cascade_iter rnd k x)) \<noteq> [] \<Longrightarrow> fst (cascade_iter rnd k x) = fst x + int k"
proof (induction k arbitrary: x)
  case 0
  show ?case by simp
next
  case (Suc k)
  show ?case
  proof (cases "fst (snd x) = []")
    case True
    with Suc.prems show ?thesis by simp
  next
    case False
    let ?x1 = "(fst x + 1,
           fst (cascade_step rnd (fst x + 1) (fst (snd x)) (snd (snd x))),
           snd (cascade_step rnd (fst x + 1) (fst (snd x)) (snd (snd x))))"
    have a: "cascade_iter rnd (Suc k) x = cascade_iter rnd k ?x1"
      using False by simp
    from Suc.prems have "fst (snd (cascade_iter rnd k ?x1)) \<noteq> []"
      unfolding a .
    from Suc.IH [OF this] show ?thesis
      unfolding a by simp
  qed
qed

lemma cascade_iter_frame:
  "movesLeft (snd (snd (cascade_iter rnd k x))) = movesLeft (snd (snd x))
   \<and> currentLevel (snd (snd (cascade_iter rnd k x))) = currentLevel (snd (snd x))
   \<and> isProcessing (snd (snd (cascade_iter rnd k x))) = isProcessing (snd (snd x))
   \<and> selectedGem (snd (snd (cascade_iter rnd k x))) = selectedGem (snd (snd x))"
  by (induction k arbitrary: x) (simp_all add: cascade_step_fields)

lemma cascade_iter_step:
  "score (snd (snd (cascade_iter rnd (Suc k) x)))
     = score (snd (snd (cascade_iter rnd k x)))
       + int (length (fst (snd (cascade_iter rnd k x)))) * 10 * (fst x + int k + 1)
   \<and> totalGemsCollected (snd (snd (cascade_iter rnd (Suc k) x)))
     = totalGemsCollected (snd (snd (cascade_iter rnd k x)))
       + int (length (fst (snd (cascade_iter rnd k x))))
   \<and> (\<forall>t. or0 (gemsCollected (snd (snd (cascade_iter rnd (Suc k) x))) t)
     = or0 (gemsCollected (snd (snd (cascade_iter rnd k x))) t)
       + kind_count (grid (snd (snd (cascade_iter rnd k x)))) t (fst (snd (cascade_iter rnd k x))))
   \<and> (fst (snd (cascade_iter rnd k x)) \<noteq> [] \<longrightarrow>
        grid (snd (snd (cascade_iter rnd (Suc k) x)))
          = fst (fillEmptySpaces rnd
              (applyGravity (removeMatches (fst (snd (cascade_iter rnd k x)))
                 (grid (snd (snd (cascade_iter rnd k x))))),
               draws (snd (snd (cascade_iter rnd k x)))))
        \<and> fst (snd (cascade_iter rnd (Suc k) x))
          = findAllMatches (grid (snd (snd (cascade_iter rnd (Suc k) x)))))"
proof (cases "fst (snd (cascade_iter rnd k x)) = []")
  case True
  then show ?thesis
    by (simp only: cascade_iter_Suc [of rnd k x]) (simp add: kind_count_def)
next
  case False
  from cascade_iter_level [OF False] have n: "fst (cascade_iter rnd k x) = fst x + int k" .
  show ?thesis
    using False
    by (simp only: cascade_iter_Suc [of rnd k x])
       (simp add: cascade_step_fields cascade_step_collected n)
qed


lemma checkAllGoalsComplete_cong:
  assumes "score s = score s'" and "gemsCollected s = gemsCollected s'"
    and "totalGemsCollected s = totalGemsCollected s'"
  shows "checkAllGoalsComplete gs s = checkAllGoalsComplete gs s'"
  by (simp only: checkAllGoalsComplete_def assms)

lemma checkLevelEnd_found:
  assumes "find_level levels (currentLevel s) = Some level"
  shows "checkLevelEnd levels s =
     Some (if checkAllGoalsComplete (level_goals level) s then Complete
           else if movesLeft s \<le> 0 then Failed else InProgress)"
  using assms by (simp add: checkLevelEnd_def Let_def)

lemma checkLevelEnd_Some:
  assumes "checkLevelEnd levels s = Some out"
  shows "\<exists>level. find_level levels (currentLevel s) = Some level
     \<and> out = (if checkAllGoalsComplete (level_goals level) s then Complete
              else if movesLeft s \<le> 0 then Failed else InProgress)"
  using assms by (auto simp add: checkLevelEnd_def Let_def split: option.splits if_splits)

lemma trySwap_accepted_unfold:
  assumes "findAllMatches (swap row1 col1 row2 col2 (grid st)) \<noteq> []"
  shows "trySwap levels rnd row1 col1 row2 col2 st =
     (case processMatches rnd (findAllMatches (swap row1 col1 row2 col2 (grid st)))
             (swap_start row1 col1 row2 col2 st) of
        None \<Rightarrow> None
      | Some st4 \<Rightarrow>
          (case checkLevelEnd levels st4 of
             None \<Rightarrow> None
           | Some out \<Rightarrow>
               (case finish_swap rnd st4 of
                  None \<Rightarrow> None
                | Some st5 \<Rightarrow> Some (out, st5))))"
  using assms by (simp add: trySwap_def Let_def deselectGem_eq swap_start_def)

lemma accepted_swap_returns:
  assumes acc: "findAllMatches (swap row1 col1 row2 col2 (grid st)) \<noteq> []"
    and stop: "accepted_matches rnd row1 col1 row2 col2 st K = []"
    and lvl: "find_level levels (currentLevel st) = Some level"
    and wf: "wf_grid (grid st)"
    and hv: "fst (hasValidMoves (grid (accepted_state rnd row1 col1 row2 col2 st K)))"
  shows "trySwap levels rnd row1 col1 row2 col2 st =
     Some (if checkAllGoalsComplete (level_goals level)
                (accepted_state rnd row1 col1 row2 col2 st K) then Complete
           else if movesLeft st - 1 \<le> 0 then Failed else InProgress,
           (accepted_state rnd row1 col1 row2 col2 st K)\<lparr>isProcessing := False\<rparr>)"
proof -
  let ?ms = "findAllMatches (swap row1 col1 row2 col2 (grid st))"
  let ?start = "swap_start row1 col1 row2 col2 st"
  let ?s4 = "accepted_state rnd row1 col1 row2 col2 st K"
  have run: "processMatches rnd ?ms ?start = Some ?s4"
    using cascade_iter_returns [of rnd K 0 ?ms ?start] stop
    by (simp add: processMatches_def accepted_matches_def accepted_state_def)
  have frame: "movesLeft ?s4 = movesLeft st - 1" "currentLevel ?s4 = currentLevel st"
    using cascade_iter_frame [of rnd K "(0, ?ms, ?start)"]
    by (simp_all add: accepted_state_def swap_start_def)
  have "wf_grid (grid ?start)"
    using wf by (simp add: swap_start_def wf_grid_swap)
  with run have wf4: "wf_grid (grid ?s4)"
    unfolding processMatches_def by (rule wf_grid_processMatches_loop)
  have out: "checkLevelEnd levels ?s4 =
     Some (if checkAllGoalsComplete (level_goals level) ?s4 then Complete
           else if movesLeft st - 1 \<le> 0 then Failed else InProgress)"
    using checkLevelEnd_found [of levels ?s4 level] lvl frame by simp
  have fin: "finish_swap rnd ?s4 = Some (?s4\<lparr>isProcessing := False\<rparr>)"
    using wf4 hv by (rule finish_swap_valid)
  show ?thesis
    by (simp only: trySwap_accepted_unfold [OF acc] run out fin option.case)
qed

lemma accepted_swap_returned:
  assumes acc: "findAllMatches (swap row1 col1 row2 col2 (grid st)) \<noteq> []"
    and ret: "trySwap levels rnd row1 col1 row2 col2 st = Some (out, st')"
  shows "\<exists>K level. accepted_matches rnd row1 col1 row2 col2 st K = []
       \<and> find_level levels (currentLevel st) = Some level
       \<and> finish_swap rnd (accepted_state rnd row1 col1 row2 col2 st K) = Some st'
       \<and> score st' = score (accepted_state rnd row1 col1 row2 col2 st K)
       \<and> gemsCollected st' = gemsCollected (accepted_state rnd row1 col1 row2 col2 st K)
       \<and> totalGemsCollected st'
           = totalGemsCollected (accepted_state rnd row1 col1 row2 col2 st K)
       \<and> movesLeft st' = movesLeft st - 1
       \<and> out = (if checkAllGoalsComplete (level_goals level) st' then Complete
                else if movesLeft st - 1 \<le> 0 then Failed else InProgress)"
proof -
  let ?ms = "findAllMatches (swap row1 col1 row2 col2 (grid st))"
  let ?start = "swap_start row1 col1 row2 col2 st"
  from ret obtain st4 where
    run: "processMatches rnd ?ms ?start = Some st4"
    and out: "checkLevelEnd levels st4 = Some out"
    and fin: "finish_swap rnd st4 = Some st'"
    unfolding trySwap_accepted_unfold [OF acc] by (auto split: option.splits)
  from run have "processMatches_loop rnd 0 ?ms ?start = Some st4"
    by (simp add: processMatches_def)
  from processMatches_loop_iter [OF this] obtain K where
    K: "cascade_iter rnd K (0, ?ms, ?start) = (int K, [], st4)"
    by auto
  then have stop: "accepted_matches rnd row1 col1 row2 col2 st K = []"
    and s4: "accepted_state rnd row1 col1 row2 col2 st K = st4"
    by (simp_all add: accepted_matches_def accepted_state_def)
  have frame: "movesLeft st4 = movesLeft st - 1" "currentLevel st4 = currentLevel st"
    using cascade_iter_frame [of rnd K "(0, ?ms, ?start)"] K
    by (simp_all add: swap_start_def)
  from checkLevelEnd_Some [OF out] frame obtain level where
    lvl: "find_level levels (currentLevel st) = Some level"
    and o: "out = (if checkAllGoalsComplete (level_goals level) st4 then Complete
              else if movesLeft st - 1 \<le> 0 then Failed else InProgress)"
    by auto
  note f = finish_swap_frame [OF fin]
  have "checkAllGoalsComplete (level_goals level) st4
      = checkAllGoalsComplete (level_goals level) st'"
    using f by (intro checkAllGoalsComplete_cong) simp_all
  with o have o': "out = (if checkAllGoalsComplete (level_goals level) st' then Complete
              else if movesLeft st - 1 \<le> 0 then Failed else InProgress)"
    by simp
  show ?thesis
    using stop lvl fin f frame o' unfolding s4 [symmetric]
    by (intro exI [of _ K] exI [of _ level]) simp
qed


subsection \<open>The move budget does not steer the swap\<close>

lemma collect_gem_budget:
  "collect_gem p (s\<lparr>movesLeft := m\<rparr>) = (collect_gem p s)\<lparr>movesLeft := m\<rparr>"
  by (simp add: collect_gem_def Let_def)

lemma fold_collect_gem_budget:
  "fold collect_gem ms (s\<lparr>movesLeft := m\<rparr>) = (fold collect_gem ms s)\<lparr>movesLeft := m\<rparr>"
  by (induction ms arbitrary: s) (simp_all add: collect_gem_budget)

lemma cascade_step_budget:
  "cascade_step rnd n ms (s\<lparr>movesLeft := m\<rparr>)
     = (fst (cascade_step rnd n ms s), (snd (cascade_step rnd n ms s))\<lparr>movesLeft := m\<rparr>)"
  by (simp add: cascade_step_def Let_def updateScore_def fold_collect_gem_budget)

lemma cascade_iter_budget:
  "cascade_iter rnd k (n, ms, s\<lparr>movesLeft := m\<rparr>)
     = (fst (cascade_iter rnd k (n, ms, s)), fst (snd (cascade_iter rnd k (n, ms, s))),
        (snd (snd (cascade_iter rnd k (n, ms, s))))\<lparr>movesLeft := m\<rparr>)"
proof (induction k arbitrary: n ms s)
  case 0
  show ?case by simp
next
  case (Suc k)
  show ?case
    by (cases "ms = []") (simp_all add: cascade_step_budget Suc)
qed

lemma processMatches_loop_budget:
  "processMatches_loop rnd n ms (s\<lparr>movesLeft := m\<rparr>)
     = map_option (\<lambda>s'. s'\<lparr>movesLeft := m\<rparr>) (processMatches_loop rnd n ms s)"
proof (cases "processMatches_loop rnd n ms s")
  case (Some s')
  from processMatches_loop_iter [OF Some] obtain K where
    K: "cascade_iter rnd K (n, ms, s) = (n + int K, [], s')"
    by auto
  then have "fst (snd (cascade_iter rnd K (n, ms, s\<lparr>movesLeft := m\<rparr>))) = []"
    by (simp add: cascade_iter_budget)
  from cascade_iter_returns [OF this] K Some show ?thesis
    by (simp add: cascade_iter_budget)
next
  case None
  have "processMatches_loop rnd n ms (s\<lparr>movesLeft := m\<rparr>) = None"
  proof (rule ccontr)
    assume "processMatches_loop rnd n ms (s\<lparr>movesLeft := m\<rparr>) \<noteq> None"
    then obtain y where "processMatches_loop rnd n ms (s\<lparr>movesLeft := m\<rparr>) = Some y"
      by auto
    from processMatches_loop_iter [OF this] obtain K where
      "cascade_iter rnd K (n, ms, s\<lparr>movesLeft := m\<rparr>) = (n + int K, [], y)"
      by auto
    then have "fst (snd (cascade_iter rnd K (n, ms, s))) = []"
      by (simp add: cascade_iter_budget)
    from cascade_iter_returns [OF this] None show False
      by simp
  qed
  with None show ?thesis by simp
qed

lemma finish_swap_budget:
  "finish_swap rnd (s\<lparr>movesLeft := m\<rparr>)
     = map_option (\<lambda>s'. s'\<lparr>movesLeft := m\<rparr>) (finish_swap rnd s)"
  by (simp add: finish_swap_def Let_def split: option.splits)

lemma checkLevelEnd_budget:
  "checkLevelEnd levels (s\<lparr>movesLeft := m\<rparr>) = Some out \<Longrightarrow>
     \<exists>out'. checkLevelEnd levels s = Some out'"
  "checkLevelEnd levels s = Some out \<Longrightarrow>
     \<exists>out'. checkLevelEnd levels (s\<lparr>movesLeft := m\<rparr>) = Some out'"
  by (auto simp add: checkLevelEnd_def Let_def split: option.splits)

lemma swap_start_budget:
  "swap_start row1 col1 row2 col2 (st\<lparr>movesLeft := m\<rparr>)
     = (swap_start row1 col1 row2 col2 st)\<lparr>movesLeft := m - 1\<rparr>"
  by (simp add: swap_start_def)

lemma accepted_swap_budget:
  assumes acc: "findAllMatches (swap row1 col1 row2 col2 (grid st)) \<noteq> []"
  shows "(trySwap levels rnd row1 col1 row2 col2 (st\<lparr>movesLeft := m\<rparr>) = None)
           = (trySwap levels rnd row1 col1 row2 col2 st = None)"
    and "trySwap levels rnd row1 col1 row2 col2 st = Some (out, st') \<Longrightarrow>
           \<exists>out'. trySwap levels rnd row1 col1 row2 col2 (st\<lparr>movesLeft := m\<rparr>)
                    = Some (out', st'\<lparr>movesLeft := m - 1\<rparr>)"
proof -
  let ?ms = "findAllMatches (swap row1 col1 row2 col2 (grid st))"
  let ?start = "swap_start row1 col1 row2 col2 st"
  have acc': "findAllMatches (swap row1 col1 row2 col2 (grid (st\<lparr>movesLeft := m\<rparr>))) \<noteq> []"
    using acc by simp
  have run: "processMatches rnd ?ms (?start\<lparr>movesLeft := m - 1\<rparr>)
      = map_option (\<lambda>s'. s'\<lparr>movesLeft := m - 1\<rparr>) (processMatches rnd ?ms ?start)"
    by (simp add: processMatches_def processMatches_loop_budget)
  have eq: "trySwap levels rnd row1 col1 row2 col2 (st\<lparr>movesLeft := m\<rparr>) =
     (case processMatches rnd ?ms ?start of
        None \<Rightarrow> None
      | Some st4 \<Rightarrow>
          (case checkLevelEnd levels (st4\<lparr>movesLeft := m - 1\<rparr>) of
             None \<Rightarrow> None
           | Some out \<Rightarrow>
               (case finish_swap rnd st4 of
                  None \<Rightarrow> None
                | Some st5 \<Rightarrow> Some (out, st5\<lparr>movesLeft := m - 1\<rparr>))))"
    unfolding trySwap_accepted_unfold [OF acc']
    by (simp add: swap_start_budget run finish_swap_budget split: option.splits)
  show "(trySwap levels rnd row1 col1 row2 col2 (st\<lparr>movesLeft := m\<rparr>) = None)
           = (trySwap levels rnd row1 col1 row2 col2 st = None)"
    unfolding eq trySwap_accepted_unfold [OF acc]
    by (auto split: option.splits
          dest: checkLevelEnd_budget(1) checkLevelEnd_budget(2) [where m = "m - 1"])
  show "\<exists>out'. trySwap levels rnd row1 col1 row2 col2 (st\<lparr>movesLeft := m\<rparr>)
                    = Some (out', st'\<lparr>movesLeft := m - 1\<rparr>)"
    if "trySwap levels rnd row1 col1 row2 col2 st = Some (out, st')"
    using that unfolding eq trySwap_accepted_unfold [OF acc]
    by (auto split: option.splits
          dest: checkLevelEnd_budget(1) checkLevelEnd_budget(2) [where m = "m - 1"])
qed

section \<open>Stars and stored progress\<close>

lemma calculateStars_three:
  assumes "starThresholds level = [t1, t2, t3]"
  shows "calculateStars level st =
           (if score st \<ge> t3 then 3 else if score st \<ge> t2 then 2
            else if score st \<ge> t1 then 1 else 0)"
  using assms by (simp add: calculateStars_def reaches_def)

lemma showLevelComplete_lookup:
  "levelProgress (showLevelComplete level st) (level_id level) =
     Some \<lparr>completed = True,
           stars = max (or0 (map_option stars (levelProgress st (level_id level))))
                     (calculateStars level st),
           bestScore = max (or0 (map_option bestScore (levelProgress st (level_id level))))
                         (score st)\<rparr>"
  by (cases "levelProgress st (level_id level)") (simp_all add: showLevelComplete_def)

text \<open>
  C5. With thresholds \<open>[t1, t2, t3]\<close> the star count is 3 from \<open>t3\<close> on, else 2 from
  \<open>t2\<close> on, else 1 from \<open>t1\<close> on, else 0. Completing a level that already has a
  stored record \<open>p\<close> stores the maximum of the old and the new star count and the
  maximum of the old best score and the score: neither stored value decreases, and a
  stored value that changes has become strictly greater and is the new one.
\<close>

theorem star_rating_ratchet:
  assumes "starThresholds level = [t1, t2, t3]"
    and "levelProgress st (level_id level) = Some p"
  shows "calculateStars level st =
           (if score st \<ge> t3 then 3 else if score st \<ge> t2 then 2
            else if score st \<ge> t1 then 1 else 0)
       \<and> (\<exists>p'. levelProgress (showLevelComplete level st) (level_id level) = Some p'
             \<and> completed p'
             \<and> stars p' = max (stars p) (calculateStars level st)
             \<and> bestScore p' = max (bestScore p) (score st)
             \<and> stars p \<le> stars p' \<and> bestScore p \<le> bestScore p'
             \<and> (stars p' \<noteq> stars p \<longrightarrow>
                   stars p < stars p' \<and> stars p' = calculateStars level st)
             \<and> (bestScore p' \<noteq> bestScore p \<longrightarrow>
                   bestScore p < bestScore p' \<and> bestScore p' = score st))"
proof -
  have lookup: "levelProgress (showLevelComplete level st) (level_id level) =
      Some \<lparr>completed = True, stars = max (stars p) (calculateStars level st),
            bestScore = max (bestScore p) (score st)\<rparr>"
    using assms(2) by (simp add: showLevelComplete_lookup or0_def)
  show ?thesis
    using calculateStars_three [OF assms(1)] lookup by auto
qed

text \<open>
  The scenario of the specification on level 2 (thresholds \<open>[1000, 1500, 2000]\<close>): a first
  completion with score 1500 stores 2 stars, and a second one with score 1200 (which rates
  1 star) keeps 2 stars and the best score 1500.
\<close>

theorem star_rating_ratchet_witness:
  "calculateStars level_two (example_state\<lparr>score := 1500\<rparr>) = 2
   \<and> levelProgress (showLevelComplete level_two (example_state\<lparr>score := 1500\<rparr>)) 2
       = Some \<lparr>completed = True, stars = 2, bestScore = 1500\<rparr>
   \<and> calculateStars level_two
        ((showLevelComplete level_two (example_state\<lparr>score := 1500\<rparr>))\<lparr>score := 1200\<rparr>) = 1
   \<and> (\<exists>p'. levelProgress
              (showLevelComplete level_two
                 ((showLevelComplete level_two (example_state\<lparr>score := 1500\<rparr>))
                    \<lparr>score := 1200\<rparr>)) 2 = Some p'
          \<and> stars p' = 2 \<and> bestScore p' = 1500)"
proof -
  let ?s0 = "example_state\<lparr>score := 1500\<rparr>"
  let ?s1 = "showLevelComplete level_two ?s0"
  let ?s2 = "?s1\<lparr>score := 1200\<rparr>"
  have thr: "starThresholds level_two = [1000, 1500, 2000]" and lid: "level_id level_two = 2"
    by (simp_all add: level_two_def LEVELS_def)
  have c1: "calculateStars level_two ?s0 = 2"
    unfolding calculateStars_three [OF thr] by simp
  have "levelProgress ?s0 (level_id level_two) = None"
    by (simp add: example_state_def)
  then have l1: "levelProgress ?s1 2 = Some \<lparr>completed = True, stars = 2, bestScore = 1500\<rparr>"
    using showLevelComplete_lookup [of level_two ?s0] c1 by (simp add: lid or0_def)
  have l2: "levelProgress ?s2 (level_id level_two)
      = Some \<lparr>completed = True, stars = 2, bestScore = 1500\<rparr>"
    using l1 by (simp add: lid)
  have c2: "calculateStars level_two ?s2 = 1"
    unfolding calculateStars_three [OF thr] by simp
  from star_rating_ratchet [OF thr l2] c2 c1 l1 show ?thesis
    by (auto simp add: lid)
qed

section \<open>Goals and the end of a level\<close>

text \<open>
  C4 (amended). In a run state whose score and total-collected counter are not
  negative, \<^verbatim>\<open>checkAllGoalsComplete\<close> is the conjunction of the clauses present: the
  score clause asks for \<open>score \<ge> target\<close>, each gem clause for the collected count of
  its type \<open>\<ge> count\<close>, the any-gem clause for \<open>totalGemsCollected \<ge> target\<close>; goals
  without a clause are satisfied. \<^verbatim>\<open>checkLevelEnd\<close> then decides \<open>Complete\<close> exactly
  when the conjunction holds, \<open>Failed\<close> exactly when it does not hold and \<open>movesLeft \<le> 0\<close>
  (zero or negative), and \<open>InProgress\<close> otherwise.
\<close>

theorem level_end_outcome:
  assumes "find_level levels (currentLevel st) = Some level"
    and "0 \<le> score st" and "0 \<le> totalGemsCollected st"
  shows "checkAllGoalsComplete (level_goals level) st =
           ((case goal_score (level_goals level) of None \<Rightarrow> True | Some t \<Rightarrow> score st \<ge> t)
          \<and> (case collectGem (level_goals level) of None \<Rightarrow> True
              | Some tc \<Rightarrow> or0 (gemsCollected st (fst tc)) \<ge> snd tc)
          \<and> (case collectGem2 (level_goals level) of None \<Rightarrow> True
              | Some tc \<Rightarrow> or0 (gemsCollected st (fst tc)) \<ge> snd tc)
          \<and> (case collectGem3 (level_goals level) of None \<Rightarrow> True
              | Some tc \<Rightarrow> or0 (gemsCollected st (fst tc)) \<ge> snd tc)
          \<and> (case collectAny (level_goals level) of None \<Rightarrow> True
              | Some t \<Rightarrow> totalGemsCollected st \<ge> t))
       \<and> checkAllGoalsComplete
            \<lparr>goal_score = None, collectGem = None, collectGem2 = None, collectGem3 = None,
             collectAny = None\<rparr> st
       \<and> checkLevelEnd levels st =
           Some (if checkAllGoalsComplete (level_goals level) st then Complete
                 else if movesLeft st \<le> 0 then Failed else InProgress)"
proof -
  have "checkLevelEnd levels st =
      Some (if checkAllGoalsComplete (level_goals level) st then Complete
            else if movesLeft st \<le> 0 then Failed else InProgress)"
    using assms(1) by (simp add: checkLevelEnd_def Let_def)
  moreover have "checkAllGoalsComplete
      \<lparr>goal_score = None, collectGem = None, collectGem2 = None, collectGem3 = None,
       collectAny = None\<rparr> st"
    by (simp add: checkAllGoalsComplete_def)
  moreover have "checkAllGoalsComplete (level_goals level) st =
           ((case goal_score (level_goals level) of None \<Rightarrow> True | Some t \<Rightarrow> score st \<ge> t)
          \<and> (case collectGem (level_goals level) of None \<Rightarrow> True
              | Some tc \<Rightarrow> or0 (gemsCollected st (fst tc)) \<ge> snd tc)
          \<and> (case collectGem2 (level_goals level) of None \<Rightarrow> True
              | Some tc \<Rightarrow> or0 (gemsCollected st (fst tc)) \<ge> snd tc)
          \<and> (case collectGem3 (level_goals level) of None \<Rightarrow> True
              | Some tc \<Rightarrow> or0 (gemsCollected st (fst tc)) \<ge> snd tc)
          \<and> (case collectAny (level_goals level) of None \<Rightarrow> True
              | Some t \<Rightarrow> totalGemsCollected st \<ge> t))"
    using assms(2,3) unfolding checkAllGoalsComplete_def
    by (auto split: option.splits)
  ultimately show ?thesis
    by blast
qed

text \<open>
  The scenarios of the specification on level 1 (score goal 500): score 500 with 5 moves
  left is \<open>Complete\<close>.
\<close>

theorem level_end_outcome_witness:
  "checkAllGoalsComplete (level_goals (LEVELS ! 0)) (example_state\<lparr>score := 500, movesLeft := 5\<rparr>)
   \<and> checkLevelEnd LEVELS (example_state\<lparr>score := 500, movesLeft := 5\<rparr>) = Some Complete"
proof -
  let ?st = "example_state\<lparr>score := 500, movesLeft := 5\<rparr>"
  have f: "find_level LEVELS (currentLevel ?st) = Some (LEVELS ! 0)"
    by (simp add: find_level_def LEVELS_def example_state_def)
  have s: "0 \<le> score ?st" and t: "0 \<le> totalGemsCollected ?st"
    by (simp_all add: example_state_def)
  have g: "goal_score (level_goals (LEVELS ! 0)) = Some 500"
    "collectGem (level_goals (LEVELS ! 0)) = None"
    "collectGem2 (level_goals (LEVELS ! 0)) = None"
    "collectGem3 (level_goals (LEVELS ! 0)) = None"
    "collectAny (level_goals (LEVELS ! 0)) = None"
    by (simp_all add: LEVELS_def)
  from level_end_outcome [OF f s t] show ?thesis
    by (simp add: g)
qed

text \<open>
  The claim as stated (\<open>Failed\<close> only when the moves left are exactly 0) fails after an
  accepted swap made with no move left: the swap lowers \<open>movesLeft\<close> to \<open>-1\<close>, the score
  goal of level 1 is not met, and \<^verbatim>\<open>checkLevelEnd\<close> decides \<open>Failed\<close>.
\<close>

theorem level_end_failed_counterexample:
  "map_option fst (trySwap LEVELS example_rnd 0 2 0 3 (example_state\<lparr>movesLeft := 0\<rparr>))
     = Some Failed
   \<and> map_option (movesLeft \<circ> snd)
       (trySwap LEVELS example_rnd 0 2 0 3 (example_state\<lparr>movesLeft := 0\<rparr>)) = Some (- 1)
   \<and> (- 1 :: int) \<noteq> 0"
  by code_simp

section \<open>Swaps and moves\<close>

text \<open>
  C1. On a well-formed board that has a valid move, for two cells of the board: when the
  exchanged cells line up no match, \<^verbatim>\<open>trySwap\<close> returns with the grid, the score, the
  moves left, the per-type counters and the total counter as they were; when they do, a
  call that returns has lowered \<open>movesLeft\<close> by exactly 1, however many cascades
  followed. Every call that returns leaves a well-formed board with a valid move (it
  shuffles until there is one), so the assumption holds again at the next swap.
\<close>

theorem move_conservation:
  assumes "wf_grid (grid st)" and "row1 < ROWS" and "col1 < COLS" and "row2 < ROWS"
    and "col2 < COLS" and "fst (hasValidMoves (grid st))"
  shows "(findAllMatches (swap row1 col1 row2 col2 (grid st)) = [] \<longrightarrow>
            (\<exists>st'. trySwap levels rnd row1 col1 row2 col2 st = Some (InProgress, st')
               \<and> grid st' = grid st \<and> score st' = score st \<and> movesLeft st' = movesLeft st
               \<and> gemsCollected st' = gemsCollected st
               \<and> totalGemsCollected st' = totalGemsCollected st))
       \<and> (findAllMatches (swap row1 col1 row2 col2 (grid st)) \<noteq> [] \<longrightarrow>
            (\<forall>out st'. trySwap levels rnd row1 col1 row2 col2 st = Some (out, st') \<longrightarrow>
               movesLeft st' = movesLeft st - 1))
       \<and> (\<forall>out st'. trySwap levels rnd row1 col1 row2 col2 st = Some (out, st') \<longrightarrow>
            wf_grid (grid st') \<and> fst (hasValidMoves (grid st')))"
proof (intro conjI impI allI)
  assume "findAllMatches (swap row1 col1 row2 col2 (grid st)) = []"
  from trySwap_rejected [OF assms this, of levels rnd]
  show "\<exists>st'. trySwap levels rnd row1 col1 row2 col2 st = Some (InProgress, st')
               \<and> grid st' = grid st \<and> score st' = score st \<and> movesLeft st' = movesLeft st
               \<and> gemsCollected st' = gemsCollected st
               \<and> totalGemsCollected st' = totalGemsCollected st"
    by simp
next
  fix out st'
  assume "findAllMatches (swap row1 col1 row2 col2 (grid st)) \<noteq> []"
    and "trySwap levels rnd row1 col1 row2 col2 st = Some (out, st')"
  from trySwap_accepted [OF this] show "movesLeft st' = movesLeft st - 1"
    by simp
next
  fix out st'
  assume "trySwap levels rnd row1 col1 row2 col2 st = Some (out, st')"
  from trySwap_valid_after [OF this assms(1)]
  show "wf_grid (grid st')" and "fst (hasValidMoves (grid st'))"
    by simp_all
qed

text \<open>
  On the example board, exchanging \<open>(0, 0)\<close> and \<open>(0, 1)\<close> is rejected and changes
  nothing; exchanging \<open>(0, 2)\<close> and \<open>(0, 3)\<close> is accepted and leaves 19 of the 20 moves.
\<close>

theorem move_conservation_witness:
  "(\<exists>st'. trySwap LEVELS example_rnd 0 0 0 1 example_state = Some (InProgress, st')
      \<and> grid st' = grid example_state \<and> score st' = score example_state
      \<and> movesLeft st' = movesLeft example_state
      \<and> gemsCollected st' = gemsCollected example_state
      \<and> totalGemsCollected st' = totalGemsCollected example_state)
   \<and> map_option (movesLeft \<circ> snd) (trySwap LEVELS example_rnd 0 2 0 3 example_state) = Some 19"
proof -
  have wf: "wf_grid (grid example_state)" by code_simp
  have b: "(0::nat) < ROWS" "(0::nat) < COLS" "(1::nat) < COLS" "(2::nat) < COLS" "(3::nat) < COLS"
    by (simp_all add: ROWS_def COLS_def)
  have hv: "fst (hasValidMoves (grid example_state))" by code_simp
  have rej: "findAllMatches (swap 0 0 0 1 (grid example_state)) = []" by code_simp
  have acc: "findAllMatches (swap 0 2 0 3 (grid example_state)) \<noteq> []" by code_simp
  have ret: "map_option fst (trySwap LEVELS example_rnd 0 2 0 3 example_state) = Some InProgress"
    by code_simp
  have m: "movesLeft example_state - 1 = 19" by (simp add: example_state_def)
  have first: "\<exists>st'. trySwap LEVELS example_rnd 0 0 0 1 example_state = Some (InProgress, st')
      \<and> grid st' = grid example_state \<and> score st' = score example_state
      \<and> movesLeft st' = movesLeft example_state
      \<and> gemsCollected st' = gemsCollected example_state
      \<and> totalGemsCollected st' = totalGemsCollected example_state"
    by (rule move_conservation [OF wf b(1) b(2) b(1) b(3) hv, of LEVELS example_rnd,
          THEN conjunct1, THEN mp, OF rej])
  obtain st' where run: "trySwap LEVELS example_rnd 0 2 0 3 example_state = Some (InProgress, st')"
    using ret by (cases "trySwap LEVELS example_rnd 0 2 0 3 example_state") auto
  have "movesLeft st' = movesLeft example_state - 1"
    by (rule move_conservation [OF wf b(1) b(4) b(1) b(5) hv, of LEVELS example_rnd,
          THEN conjunct2, THEN conjunct1, THEN mp, OF acc, THEN spec, THEN spec, THEN mp,
          OF run])
  then have "map_option (movesLeft \<circ> snd)
      (trySwap LEVELS example_rnd 0 2 0 3 example_state) = Some 19"
    unfolding run m by simp
  with first show ?thesis by (rule conjI)
qed

text \<open>
  C10. \<^verbatim>\<open>trySwap\<close> does not look at the moves left. Let the exchanged cells line up a
  match, whatever \<open>movesLeft\<close> is (0 included).
  \<^item> The swap is carried out: if the cascade loop reaches an empty match list after some
    \<open>K\<close> iterations, the current level is in the table and the board then has a valid
    move, the call returns the state after those \<open>K\<close> iterations with the busy flag
    cleared, and the outcome of \<^verbatim>\<open>checkLevelEnd\<close>: \<open>Complete\<close> when the goals hold, else
    \<open>Failed\<close> when \<open>movesLeft - 1 \<le> 0\<close>, else \<open>InProgress\<close>.
  \<^item> Every iteration \<open>k\<close> of that loop runs with \<open>movesLeft\<close> already lowered by 1, adds
    the number of matched cells times 10 times \<open>k + 1\<close> to the score, adds that number
    to the total counter, adds to the counter of every gem type the number of matched
    cells holding it, and, while there are matches, empties them, applies gravity,
    refills and detects again.
  \<^item> The loop starts from the exchanged board with the score and the counters of the
    call.
  \<^item> Every call that returns has done all that: its state has the score and the counters
    of the state after the \<open>K\<close> iterations that emptied the match list, \<open>movesLeft\<close>
    lowered by exactly 1 (\<open>-1\<close> from 0), and the outcome above.
  \<^item> The budget steers nothing: with any other value \<open>m\<close> of \<open>movesLeft\<close> the call
    returns exactly when this one does, with the same state but for \<open>movesLeft = m - 1\<close>.
\<close>

theorem no_move_budget_check:
  assumes "findAllMatches (swap row1 col1 row2 col2 (grid st)) \<noteq> []"
  shows "(\<forall>K level.
            accepted_matches rnd row1 col1 row2 col2 st K = []
            \<and> find_level levels (currentLevel st) = Some level
            \<and> wf_grid (grid st)
            \<and> fst (hasValidMoves (grid (accepted_state rnd row1 col1 row2 col2 st K)))
            \<longrightarrow> trySwap levels rnd row1 col1 row2 col2 st =
                  Some (if checkAllGoalsComplete (level_goals level)
                             (accepted_state rnd row1 col1 row2 col2 st K) then Complete
                        else if movesLeft st - 1 \<le> 0 then Failed else InProgress,
                        (accepted_state rnd row1 col1 row2 col2 st K)\<lparr>isProcessing := False\<rparr>))
       \<and> (\<forall>k. movesLeft (accepted_state rnd row1 col1 row2 col2 st k) = movesLeft st - 1
             \<and> score (accepted_state rnd row1 col1 row2 col2 st (Suc k))
                 = score (accepted_state rnd row1 col1 row2 col2 st k)
                   + int (length (accepted_matches rnd row1 col1 row2 col2 st k)) * 10
                     * (int k + 1)
             \<and> totalGemsCollected (accepted_state rnd row1 col1 row2 col2 st (Suc k))
                 = totalGemsCollected (accepted_state rnd row1 col1 row2 col2 st k)
                   + int (length (accepted_matches rnd row1 col1 row2 col2 st k))
             \<and> (\<forall>t. or0 (gemsCollected (accepted_state rnd row1 col1 row2 col2 st (Suc k)) t)
                 = or0 (gemsCollected (accepted_state rnd row1 col1 row2 col2 st k) t)
                   + kind_count (grid (accepted_state rnd row1 col1 row2 col2 st k)) t
                       (accepted_matches rnd row1 col1 row2 col2 st k))
             \<and> (accepted_matches rnd row1 col1 row2 col2 st k \<noteq> [] \<longrightarrow>
                  grid (accepted_state rnd row1 col1 row2 col2 st (Suc k))
                    = fst (fillEmptySpaces rnd
                        (applyGravity (removeMatches (accepted_matches rnd row1 col1 row2 col2 st k)
                           (grid (accepted_state rnd row1 col1 row2 col2 st k))),
                         draws (accepted_state rnd row1 col1 row2 col2 st k)))
                  \<and> accepted_matches rnd row1 col1 row2 col2 st (Suc k)
                    = findAllMatches (grid (accepted_state rnd row1 col1 row2 col2 st (Suc k)))))
       \<and> (accepted_matches rnd row1 col1 row2 col2 st 0
             = findAllMatches (swap row1 col1 row2 col2 (grid st))
           \<and> grid (accepted_state rnd row1 col1 row2 col2 st 0)
             = swap row1 col1 row2 col2 (grid st)
           \<and> score (accepted_state rnd row1 col1 row2 col2 st 0) = score st
           \<and> gemsCollected (accepted_state rnd row1 col1 row2 col2 st 0) = gemsCollected st
           \<and> totalGemsCollected (accepted_state rnd row1 col1 row2 col2 st 0)
             = totalGemsCollected st)
       \<and> (\<forall>out st'. trySwap levels rnd row1 col1 row2 col2 st = Some (out, st') \<longrightarrow>
            (\<exists>K level. accepted_matches rnd row1 col1 row2 col2 st K = []
               \<and> find_level levels (currentLevel st) = Some level
               \<and> finish_swap rnd (accepted_state rnd row1 col1 row2 col2 st K) = Some st'
               \<and> score st' = score (accepted_state rnd row1 col1 row2 col2 st K)
               \<and> gemsCollected st' = gemsCollected (accepted_state rnd row1 col1 row2 col2 st K)
               \<and> totalGemsCollected st'
                   = totalGemsCollected (accepted_state rnd row1 col1 row2 col2 st K)
               \<and> movesLeft st' = movesLeft st - 1
               \<and> out = (if checkAllGoalsComplete (level_goals level) st' then Complete
                        else if movesLeft st - 1 \<le> 0 then Failed else InProgress))
            \<and> (movesLeft st = 0 \<longrightarrow> movesLeft st' = - 1)
            \<and> (movesLeft st \<le> 0 \<longrightarrow> out \<noteq> InProgress)
            \<and> score st
                 + 10 * int (length (findAllMatches (swap row1 col1 row2 col2 (grid st))))
                 \<le> score st'
            \<and> totalGemsCollected st
                 + int (length (findAllMatches (swap row1 col1 row2 col2 (grid st))))
                 \<le> totalGemsCollected st')
       \<and> (\<forall>m. (trySwap levels rnd row1 col1 row2 col2 (st\<lparr>movesLeft := m\<rparr>) = None)
                = (trySwap levels rnd row1 col1 row2 col2 st = None)
             \<and> (\<forall>out st'. trySwap levels rnd row1 col1 row2 col2 st = Some (out, st') \<longrightarrow>
                  (\<exists>out'. trySwap levels rnd row1 col1 row2 col2 (st\<lparr>movesLeft := m\<rparr>)
                            = Some (out', st'\<lparr>movesLeft := m - 1\<rparr>))))"
    (is "?total \<and> ?steps \<and> ?start \<and> ?returned \<and> ?budget")
proof -
  let ?ms = "findAllMatches (swap row1 col1 row2 col2 (grid st))"
  let ?x = "(0 :: int, ?ms, swap_start row1 col1 row2 col2 st)"
  have total: ?total
    using accepted_swap_returns [OF assms] by blast
  have steps: ?steps
  proof
    fix k
    have "movesLeft (accepted_state rnd row1 col1 row2 col2 st k) = movesLeft st - 1"
      using cascade_iter_frame [of rnd k ?x]
      by (simp add: accepted_state_def swap_start_def)
    with cascade_iter_step [of rnd k ?x]
    show "movesLeft (accepted_state rnd row1 col1 row2 col2 st k) = movesLeft st - 1
             \<and> score (accepted_state rnd row1 col1 row2 col2 st (Suc k))
                 = score (accepted_state rnd row1 col1 row2 col2 st k)
                   + int (length (accepted_matches rnd row1 col1 row2 col2 st k)) * 10
                     * (int k + 1)
             \<and> totalGemsCollected (accepted_state rnd row1 col1 row2 col2 st (Suc k))
                 = totalGemsCollected (accepted_state rnd row1 col1 row2 col2 st k)
                   + int (length (accepted_matches rnd row1 col1 row2 col2 st k))
             \<and> (\<forall>t. or0 (gemsCollected (accepted_state rnd row1 col1 row2 col2 st (Suc k)) t)
                 = or0 (gemsCollected (accepted_state rnd row1 col1 row2 col2 st k) t)
                   + kind_count (grid (accepted_state rnd row1 col1 row2 col2 st k)) t
                       (accepted_matches rnd row1 col1 row2 col2 st k))
             \<and> (accepted_matches rnd row1 col1 row2 col2 st k \<noteq> [] \<longrightarrow>
                  grid (accepted_state rnd row1 col1 row2 col2 st (Suc k))
                    = fst (fillEmptySpaces rnd
                        (applyGravity (removeMatches (accepted_matches rnd row1 col1 row2 col2 st k)
                           (grid (accepted_state rnd row1 col1 row2 col2 st k))),
                         draws (accepted_state rnd row1 col1 row2 col2 st k)))
                  \<and> accepted_matches rnd row1 col1 row2 col2 st (Suc k)
                    = findAllMatches (grid (accepted_state rnd row1 col1 row2 col2 st (Suc k))))"
      unfolding accepted_state_def accepted_matches_def by simp
  qed
  have start: ?start
    by (simp add: accepted_matches_def accepted_state_def swap_start_def)
  have returned: ?returned
  proof (intro allI impI)
    fix out st'
    assume ret: "trySwap levels rnd row1 col1 row2 col2 st = Some (out, st')"
    from accepted_swap_returned [OF assms ret] obtain K level where
      exact: "accepted_matches rnd row1 col1 row2 col2 st K = []
               \<and> find_level levels (currentLevel st) = Some level
               \<and> finish_swap rnd (accepted_state rnd row1 col1 row2 col2 st K) = Some st'
               \<and> score st' = score (accepted_state rnd row1 col1 row2 col2 st K)
               \<and> gemsCollected st' = gemsCollected (accepted_state rnd row1 col1 row2 col2 st K)
               \<and> totalGemsCollected st'
                   = totalGemsCollected (accepted_state rnd row1 col1 row2 col2 st K)
               \<and> movesLeft st' = movesLeft st - 1
               \<and> out = (if checkAllGoalsComplete (level_goals level) st' then Complete
                        else if movesLeft st - 1 \<le> 0 then Failed else InProgress)"
      by blast
    then have ex: "\<exists>K level. accepted_matches rnd row1 col1 row2 col2 st K = []
               \<and> find_level levels (currentLevel st) = Some level
               \<and> finish_swap rnd (accepted_state rnd row1 col1 row2 col2 st K) = Some st'
               \<and> score st' = score (accepted_state rnd row1 col1 row2 col2 st K)
               \<and> gemsCollected st' = gemsCollected (accepted_state rnd row1 col1 row2 col2 st K)
               \<and> totalGemsCollected st'
                   = totalGemsCollected (accepted_state rnd row1 col1 row2 col2 st K)
               \<and> movesLeft st' = movesLeft st - 1
               \<and> out = (if checkAllGoalsComplete (level_goals level) st' then Complete
                        else if movesLeft st - 1 \<le> 0 then Failed else InProgress)"
      by (intro exI)
    from exact have m: "movesLeft st' = movesLeft st - 1"
      and o: "out = (if checkAllGoalsComplete (level_goals level) st' then Complete
                        else if movesLeft st - 1 \<le> 0 then Failed else InProgress)"
      by simp_all
    have m0: "movesLeft st = 0 \<longrightarrow> movesLeft st' = - 1"
      using m by simp
    have o0: "movesLeft st \<le> 0 \<longrightarrow> out \<noteq> InProgress"
      using o by simp
    from trySwap_accepted [OF assms ret] have
      low: "score st + 10 * int (length ?ms) \<le> score st'"
        "totalGemsCollected st + int (length ?ms) \<le> totalGemsCollected st'"
      by simp_all
    show "(\<exists>K level. accepted_matches rnd row1 col1 row2 col2 st K = []
               \<and> find_level levels (currentLevel st) = Some level
               \<and> finish_swap rnd (accepted_state rnd row1 col1 row2 col2 st K) = Some st'
               \<and> score st' = score (accepted_state rnd row1 col1 row2 col2 st K)
               \<and> gemsCollected st' = gemsCollected (accepted_state rnd row1 col1 row2 col2 st K)
               \<and> totalGemsCollected st'
                   = totalGemsCollected (accepted_state rnd row1 col1 row2 col2 st K)
               \<and> movesLeft st' = movesLeft st - 1
               \<and> out = (if checkAllGoalsComplete (level_goals level) st' then Complete
                        else if movesLeft st - 1 \<le> 0 then Failed else InProgress))
            \<and> (movesLeft st = 0 \<longrightarrow> movesLeft st' = - 1)
            \<and> (movesLeft st \<le> 0 \<longrightarrow> out \<noteq> InProgress)
            \<and> score st + 10 * int (length ?ms) \<le> score st'
            \<and> totalGemsCollected st + int (length ?ms) \<le> totalGemsCollected st'"
      by (rule conjI [OF ex conjI [OF m0 conjI [OF o0 conjI [OF low]]]])
  qed
  have budget: ?budget
    using accepted_swap_budget [OF assms] by blast
  show ?thesis
    by (rule conjI [OF total conjI [OF steps conjI [OF start conjI [OF returned budget]]]])
qed

text \<open>
  With no move left on the example board, exchanging \<open>(0, 2)\<close> and \<open>(0, 3)\<close> is carried
  out all the same. The loop stops after one iteration on a board with a valid move, so
  the call returns: \<open>movesLeft = -1\<close>, the 30 points of the three gems, three gems of
  type 0 collected, and the level failed.
\<close>

theorem no_move_budget_check_witness:
  "trySwap LEVELS example_rnd 0 2 0 3 (example_state\<lparr>movesLeft := 0\<rparr>)
     = Some (Failed,
         (accepted_state example_rnd 0 2 0 3 (example_state\<lparr>movesLeft := 0\<rparr>) 1)
           \<lparr>isProcessing := False\<rparr>)
   \<and> movesLeft (accepted_state example_rnd 0 2 0 3 (example_state\<lparr>movesLeft := 0\<rparr>) 1) = - 1
   \<and> score (accepted_state example_rnd 0 2 0 3 (example_state\<lparr>movesLeft := 0\<rparr>) 1) = 30
   \<and> totalGemsCollected
       (accepted_state example_rnd 0 2 0 3 (example_state\<lparr>movesLeft := 0\<rparr>) 1) = 3
   \<and> map (\<lambda>t. or0 (gemsCollected
         (accepted_state example_rnd 0 2 0 3 (example_state\<lparr>movesLeft := 0\<rparr>) 1) t))
       [0, 1, 2, 3, 4, 5] = [3, 0, 0, 0, 0, 0]"
proof -
  let ?st = "example_state\<lparr>movesLeft := 0\<rparr>"
  let ?s1 = "accepted_state example_rnd 0 2 0 3 ?st 1"
  have acc: "findAllMatches (swap 0 2 0 3 (grid ?st)) \<noteq> []" by code_simp
  have stop: "accepted_matches example_rnd 0 2 0 3 ?st 1 = []" by code_simp
  have lvl: "find_level LEVELS (currentLevel ?st) = Some (LEVELS ! 0)"
    by (simp add: find_level_def LEVELS_def example_state_def)
  have wf: "wf_grid (grid ?st)" by code_simp
  have hv: "fst (hasValidMoves (grid ?s1))" by code_simp
  have goals: "\<not> checkAllGoalsComplete (level_goals (LEVELS ! 0)) ?s1" by code_simp
  have m: "movesLeft ?st - 1 \<le> 0" by (simp add: example_state_def)
  have vals: "movesLeft ?s1 = - 1" "score ?s1 = 30" "totalGemsCollected ?s1 = 3"
    "map (\<lambda>t. or0 (gemsCollected ?s1 t)) [0, 1, 2, 3, 4, 5] = [3, 0, 0, 0, 0, 0]"
    by code_simp+
  have "trySwap LEVELS example_rnd 0 2 0 3 ?st =
      Some (if checkAllGoalsComplete (level_goals (LEVELS ! 0)) ?s1 then Complete
            else if movesLeft ?st - 1 \<le> 0 then Failed else InProgress,
            ?s1\<lparr>isProcessing := False\<rparr>)"
    by (rule no_move_budget_check [OF acc, of example_rnd LEVELS, THEN conjunct1,
          THEN spec, THEN spec, THEN mp, OF conjI [OF stop conjI [OF lvl conjI [OF wf hv]]]])
  then have "trySwap LEVELS example_rnd 0 2 0 3 ?st
      = Some (Failed, ?s1\<lparr>isProcessing := False\<rparr>)"
    by (simp only: goals m if_False if_True)
  then show ?thesis
    by (rule conjI [OF _ conjI [OF vals(1) conjI [OF vals(2) conjI [OF vals(3) vals(4)]]]])
qed

section \<open>Cascade scoring\<close>

text \<open>
  C3. When \<^verbatim>\<open>processMatches\<close> returns, its loop has run some number \<open>K\<close> of iterations.
  The iteration number \<open>k\<close> (counted from 0) starts with \<open>cascadeLevel = k\<close> and a
  non-empty match list, and raises the score by exactly the number of matched cells times
  10 times \<open>k + 1\<close>: the cascade index is 1 for the first match list and grows by 1 with
  each iteration. So no iteration lowers the score, the score at the end of the cycle is
  at least the score at its start, and no swap attempt that returns lowers the score.
\<close>

theorem cascade_scoring:
  assumes "processMatches rnd ms st = Some st'"
  shows "\<exists>K. cascade_iter rnd K (0, ms, st) = (int K, [], st')
       \<and> (\<forall>k<K. fst (cascade_iter rnd k (0, ms, st)) = int k
             \<and> fst (snd (cascade_iter rnd k (0, ms, st))) \<noteq> []
             \<and> score (snd (snd (cascade_iter rnd (Suc k) (0, ms, st))))
                 = score (snd (snd (cascade_iter rnd k (0, ms, st))))
                   + int (length (fst (snd (cascade_iter rnd k (0, ms, st))))) * 10 * (int k + 1)
             \<and> score (snd (snd (cascade_iter rnd k (0, ms, st))))
                 \<le> score (snd (snd (cascade_iter rnd (Suc k) (0, ms, st)))))
       \<and> score st \<le> score st'
       \<and> (\<forall>levels row1 col1 row2 col2 s out s'.
             trySwap levels rnd row1 col1 row2 col2 s = Some (out, s') \<longrightarrow> score s \<le> score s')"
proof -
  from assms have run: "processMatches_loop rnd 0 ms st = Some st'"
    by (simp add: processMatches_def)
  from processMatches_loop_iter [OF run] obtain K where
    K: "cascade_iter rnd K (0, ms, st) = (int K, [], st')"
    and before: "\<forall>k<K. fst (cascade_iter rnd k (0, ms, st)) = int k
               \<and> fst (snd (cascade_iter rnd k (0, ms, st))) \<noteq> []"
    by auto
  have step: "score (snd (snd (cascade_iter rnd (Suc k) (0, ms, st))))
                 = score (snd (snd (cascade_iter rnd k (0, ms, st))))
                   + int (length (fst (snd (cascade_iter rnd k (0, ms, st))))) * 10 * (int k + 1)
             \<and> score (snd (snd (cascade_iter rnd k (0, ms, st))))
                 \<le> score (snd (snd (cascade_iter rnd (Suc k) (0, ms, st))))"
    if "k < K" for k
  proof -
    let ?x = "cascade_iter rnd k (0, ms, st)"
    from before that have n: "fst ?x = int k" and ne: "fst (snd ?x) \<noteq> []"
      by auto
    define points where "points = int (length (fst (snd ?x))) * 10 * (int k + 1)"
    have "0 \<le> points"
      by (simp add: points_def)
    moreover have "score (snd (snd (cascade_iter rnd (Suc k) (0, ms, st))))
        = score (snd (snd ?x)) + points"
      using ne n by (simp only: cascade_iter_Suc [of rnd k]) (simp add: cascade_step_fields points_def)
    ultimately show ?thesis
      by (simp add: points_def)
  qed
  have "score st \<le> score st'"
    using processMatches_loop_mono [OF run] by simp
  with K before step have "\<exists>K. cascade_iter rnd K (0, ms, st) = (int K, [], st')
       \<and> (\<forall>k<K. fst (cascade_iter rnd k (0, ms, st)) = int k
             \<and> fst (snd (cascade_iter rnd k (0, ms, st))) \<noteq> []
             \<and> score (snd (snd (cascade_iter rnd (Suc k) (0, ms, st))))
                 = score (snd (snd (cascade_iter rnd k (0, ms, st))))
                   + int (length (fst (snd (cascade_iter rnd k (0, ms, st))))) * 10 * (int k + 1)
             \<and> score (snd (snd (cascade_iter rnd k (0, ms, st))))
                 \<le> score (snd (snd (cascade_iter rnd (Suc k) (0, ms, st)))))
       \<and> score st \<le> score st'"
    by blast
  moreover have "\<forall>levels row1 col1 row2 col2 s out s'.
      trySwap levels rnd row1 col1 row2 col2 s = Some (out, s') \<longrightarrow> score s \<le> score s'"
    using trySwap_score_mono by blast
  ultimately show ?thesis
    by blast
qed

text \<open>
  On the example board with \<open>(2, 2)\<close> and \<open>(2, 3)\<close> exchanged the loop runs twice: three
  gems at index 1 and three gems at index 2, \<open>30 + 60 = 90\<close> points.
\<close>

theorem cascade_scoring_witness:
  "(\<exists>K. cascade_iter example_rnd K
           (0, findAllMatches (swap 2 2 2 3 example_grid),
            example_state\<lparr>grid := swap 2 2 2 3 example_grid\<rparr>)
         = (int K, [],
            snd (snd (cascade_iter example_rnd 2
              (0, findAllMatches (swap 2 2 2 3 example_grid),
               example_state\<lparr>grid := swap 2 2 2 3 example_grid\<rparr>)))))
   \<and> map (\<lambda>k. score (snd (snd (cascade_iter example_rnd k
              (0, findAllMatches (swap 2 2 2 3 example_grid),
               example_state\<lparr>grid := swap 2 2 2 3 example_grid\<rparr>))))) [0, 1, 2]
       = [0, 30, 90]"
proof -
  let ?ms = "findAllMatches (swap 2 2 2 3 example_grid)"
  let ?st = "example_state\<lparr>grid := swap 2 2 2 3 example_grid\<rparr>"
  have stop: "fst (snd (cascade_iter example_rnd 2 (0, ?ms, ?st))) = []"
    by code_simp
  have run: "processMatches example_rnd ?ms ?st
      = Some (snd (snd (cascade_iter example_rnd 2 (0, ?ms, ?st))))"
    unfolding processMatches_def by (rule cascade_iter_returns [OF stop])
  have scores: "map (\<lambda>k. score (snd (snd (cascade_iter example_rnd k (0, ?ms, ?st))))) [0, 1, 2]
      = [0, 30, 90]"
    by code_simp
  from cascade_scoring [OF run] obtain K where
    "cascade_iter example_rnd K (0, ?ms, ?st)
       = (int K, [], snd (snd (cascade_iter example_rnd 2 (0, ?ms, ?st))))"
    by (elim exE conjE)
  then have "\<exists>K. cascade_iter example_rnd K (0, ?ms, ?st)
       = (int K, [], snd (snd (cascade_iter example_rnd 2 (0, ?ms, ?st))))"
    by (rule exI)
  with scores show ?thesis by (rule conjI [rotated])
qed

section \<open>Clicks that are not a swap of neighbours\<close>

text \<open>
  C9 (amended). Two positions are adjacent exactly when their Manhattan distance is 1.
  When a gem is selected and the player clicks a cell that is not adjacent to it (the
  selected cell itself included), \<^verbatim>\<open>handleGemClick\<close> does not call \<^verbatim>\<open>trySwap\<close>: the
  grid, the score, the moves left, the counters and the random draws are unchanged, and
  only the selection changes, cleared on the selected cell and moved to the clicked cell
  otherwise. Nothing is signalled, and \<^verbatim>\<open>trySwap\<close> itself does not test adjacency.
\<close>

theorem click_not_adjacent:
  assumes "\<not> isProcessing st" and "selectedGem st = Some sel"
    and "\<not> isAdjacent sel (row, col)"
  shows "(\<forall>p q. isAdjacent p q \<longleftrightarrow>
            \<bar>int (fst p) - int (fst q)\<bar> + \<bar>int (snd p) - int (snd q)\<bar> = 1)
       \<and> (\<exists>st'. handleGemClick levels rnd row col st = Some (InProgress, st')
             \<and> grid st' = grid st \<and> score st' = score st \<and> movesLeft st' = movesLeft st
             \<and> gemsCollected st' = gemsCollected st
             \<and> totalGemsCollected st' = totalGemsCollected st \<and> draws st' = draws st
             \<and> selectedGem st' = (if sel = (row, col) then None else Some (row, col)))"
proof -
  have adj: "isAdjacent p q \<longleftrightarrow>
      \<bar>int (fst p) - int (fst q)\<bar> + \<bar>int (snd p) - int (snd q)\<bar> = 1" for p q
    unfolding isAdjacent_def Let_def by linarith
  have click: "handleGemClick levels rnd row col st =
      Some (InProgress,
        if sel = (row, col) then st\<lparr>selectedGem := None\<rparr>
        else st\<lparr>selectedGem := Some (row, col)\<rparr>)"
    using assms
    by (cases sel) (simp add: handleGemClick_def Let_def deselectGem_eq selectGem_def)
  show ?thesis
    using adj click by (cases "sel = (row, col)") simp_all
qed

text \<open>
  With \<open>(0, 2)\<close> selected on the example board, a click on the distant cell \<open>(3, 0)\<close>
  only moves the selection.
\<close>

theorem click_not_adjacent_witness:
  "\<exists>st'. handleGemClick LEVELS example_rnd 3 0 (example_state\<lparr>selectedGem := Some (0, 2)\<rparr>)
           = Some (InProgress, st')
     \<and> grid st' = example_grid \<and> movesLeft st' = 20 \<and> score st' = 0
     \<and> selectedGem st' = Some (3, 0)"
proof -
  let ?st = "example_state\<lparr>selectedGem := Some (0, 2)\<rparr>"
  have a: "\<not> isProcessing ?st" and b: "selectedGem ?st = Some (0, 2)"
    by (simp_all add: example_state_def)
  have c: "\<not> isAdjacent (0, 2) (3, 0)"
    by (simp add: isAdjacent_def)
  from click_not_adjacent [OF a b c, of LEVELS example_rnd, THEN conjunct2]
  show ?thesis
    by (auto simp add: example_state_def)
qed

text \<open>
  The claim as stated fails for \<^verbatim>\<open>trySwap\<close>: called on the distant cells \<open>(0, 2)\<close> and
  \<open>(3, 0)\<close> of the example board it exchanges them, finds the four gems of type 0 in
  row 0, uses a move and changes the board.
\<close>

theorem swap_not_adjacent_counterexample:
  "\<not> isAdjacent (0, 2) (3, 0)
   \<and> movesLeft example_state = 20
   \<and> map_option (movesLeft \<circ> snd) (trySwap LEVELS example_rnd 0 2 3 0 example_state) = Some 19
   \<and> map_option (grid \<circ> snd) (trySwap LEVELS example_rnd 0 2 3 0 example_state)
       \<noteq> Some (grid example_state)"
  by code_simp

section \<open>Gravity\<close>

text \<open>
  C7. On a well-formed board \<^verbatim>\<open>applyGravity\<close> turns every column into its empty cells
  followed by its other cells in their former top-to-bottom order: the empty cells are at
  the top, the gems are packed at the bottom in the same relative order, the multiset of
  the column's values is unchanged, and the pass over one column leaves every other column
  as it was.
\<close>

theorem gravity_compacts_columns:
  assumes "wf_grid g" and "col < COLS"
  shows "column (applyGravity g) col
           = replicate (length (filter (\<lambda>v. v = - 1) (column g col))) (- 1)
             @ filter (\<lambda>v. v \<noteq> - 1) (column g col)
       \<and> mset (column (applyGravity g) col) = mset (column g col)
       \<and> (\<forall>c'. c' \<noteq> col \<longrightarrow>
             column (gravity_col col ROWS (int ROWS - 1) g) c' = column g c')
       \<and> wf_grid (applyGravity g)"
proof -
  have eq: "column (applyGravity g) col
           = replicate (length (filter (\<lambda>v. v = - 1) (column g col))) (- 1)
             @ filter (\<lambda>v. v \<noteq> - 1) (column g col)"
    using assms by (rule applyGravity_column(1))
  have "mset (column (applyGravity g) col) = mset (column g col)"
    unfolding eq by (rule mset_compact)
  with eq applyGravity_column(2) [OF assms] gravity_col_whole [OF assms]
  show ?thesis by simp
qed

text \<open>
  Column 4 of the board with holes, \<open>2, -1, 2, -1, 0, -1, 4, 0\<close> from the top, becomes
  \<open>-1, -1, -1, 2, 2, 0, 4, 0\<close>.
\<close>

theorem gravity_compacts_columns_witness:
  "column holed_grid 4 = [2, - 1, 2, - 1, 0, - 1, 4, 0]
   \<and> column (applyGravity holed_grid) 4 = [- 1, - 1, - 1, 2, 2, 0, 4, 0]
   \<and> mset (column (applyGravity holed_grid) 4) = mset (column holed_grid 4)"
proof -
  have wf: "wf_grid holed_grid" by code_simp
  have c: "(4::nat) < COLS" by (simp add: COLS_def)
  have col: "column holed_grid 4 = [2, - 1, 2, - 1, 0, - 1, 4, 0]" by code_simp
  from gravity_compacts_columns [OF wf c] show ?thesis
    unfolding col by simp
qed

section \<open>The board after a resolution cycle\<close>

text \<open>
  C2. Let \<^verbatim>\<open>processMatches\<close> be called as \<^verbatim>\<open>trySwap\<close> calls it, with a non-empty match
  list, on a well-formed board, and let the random numbers be non-negative (as those of
  \<^verbatim>\<open>Math.random()\<close> are). If the call returns, the board has no empty cell, the match
  detector returns the empty list on it, and no row and no column holds three equal cells
  side by side.
\<close>

theorem no_standing_matches:
  assumes "processMatches rnd ms st = Some st'" and "ms \<noteq> []"
    and "wf_grid (grid st)" and "\<forall>n. 0 \<le> rnd n"
  shows "no_empty (grid st') \<and> findAllMatches (grid st') = []
       \<and> (\<forall>row<ROWS. \<forall>col. \<not> row_triple (grid st') row col)
       \<and> (\<forall>col<COLS. \<forall>row. \<not> col_triple (grid st') row col)
       \<and> wf_grid (grid st')"
proof -
  let ?ms1 = "fst (cascade_step rnd 1 ms st)" and ?st1 = "snd (cascade_step rnd 1 ms st)"
  let ?I = "\<lambda>(n :: int) ms s. wf_grid (grid s) \<and> no_empty (grid s)
     \<and> ms = findAllMatches (grid s)"
  have run: "processMatches_loop rnd 1 ?ms1 ?st1 = Some st'"
    using assms(1,2) by (simp add: processMatches_def processMatches_loop.simps [of rnd 0 ms st])
  have "\<exists>n'. ?I n' [] st'"
  proof (rule processMatches_loop_invariant [OF run, where I = ?I])
    show "?I 1 ?ms1 ?st1"
      using cascade_step_grid [OF assms(3,4), of 1 ms] by (simp add: cascade_step_fields)
  next
    fix n :: int and ms :: "pos list" and s :: state
    assume "?I n ms s"
    then have "wf_grid (grid s)" by simp
    from cascade_step_grid [OF this assms(4), of "n + 1" ms]
    show "?I (n + 1) (fst (cascade_step rnd (n + 1) ms s)) (snd (cascade_step rnd (n + 1) ms s))"
      by (simp add: cascade_step_fields)
  qed
  then have wf: "wf_grid (grid st')" and ne: "no_empty (grid st')"
    and em: "findAllMatches (grid st') = []"
    by simp_all
  from findAllMatches_empty [OF em] wf ne em show ?thesis
    by simp
qed

text \<open>
  The two cascades of the example end on a full board without a match.
\<close>

theorem no_standing_matches_witness:
  "no_empty (grid (snd (snd (cascade_iter example_rnd 2
      (0, findAllMatches (swap 2 2 2 3 example_grid),
       example_state\<lparr>grid := swap 2 2 2 3 example_grid\<rparr>)))))
   \<and> findAllMatches (grid (snd (snd (cascade_iter example_rnd 2
      (0, findAllMatches (swap 2 2 2 3 example_grid),
       example_state\<lparr>grid := swap 2 2 2 3 example_grid\<rparr>))))) = []"
proof -
  let ?ms = "findAllMatches (swap 2 2 2 3 example_grid)"
  let ?st = "example_state\<lparr>grid := swap 2 2 2 3 example_grid\<rparr>"
  have stop: "fst (snd (cascade_iter example_rnd 2 (0, ?ms, ?st))) = []"
    by code_simp
  have run: "processMatches example_rnd ?ms ?st
      = Some (snd (snd (cascade_iter example_rnd 2 (0, ?ms, ?st))))"
    unfolding processMatches_def by (rule cascade_iter_returns [OF stop])
  have ne: "?ms \<noteq> []" by code_simp
  have wf: "wf_grid (grid ?st)" by code_simp
  have rnd: "\<forall>n. 0 \<le> example_rnd n" by (simp add: example_rnd_def)
  from no_standing_matches [OF run ne wf rnd] show ?thesis
    by (elim conjE) (rule conjI)
qed

section \<open>Empty cells and the match detector\<close>

text \<open>
  C6 (amended). Every position of the match list is on the board and lies in a window of
  three equal cells of its row or of its column. So a matched cell is empty only if it
  is one of three empty cells side by side in its row or column (which the detector
  reports like any other run: it has no test for the empty value), and on a well-formed
  board without an empty cell (the only boards the script runs the detector on) no
  matched cell is empty.
\<close>

theorem matched_cells_lie_in_runs:
  assumes "(row, col) \<in> set (findAllMatches g)"
  shows "row < ROWS \<and> col < COLS \<and> (in_row_run g row col \<or> in_col_run g row col)
       \<and> (g ! row ! col = - 1 \<longrightarrow>
            (\<exists>k\<in>{col - 2..col}. k + 2 < COLS \<and> g ! row ! k = - 1
                \<and> g ! row ! (k + 1) = - 1 \<and> g ! row ! (k + 2) = - 1)
          \<or> (\<exists>k\<in>{row - 2..row}. k + 2 < ROWS \<and> g ! k ! col = - 1
                \<and> g ! (k + 1) ! col = - 1 \<and> g ! (k + 2) ! col = - 1))
       \<and> (wf_grid g \<and> no_empty g \<longrightarrow> g ! row ! col \<noteq> - 1)"
proof -
  from findAllMatches_sound [OF assms] have b: "row < ROWS" "col < COLS"
    and run: "in_row_run g row col \<or> in_col_run g row col"
    by simp_all
  have "(\<exists>k\<in>{col - 2..col}. k + 2 < COLS \<and> g ! row ! k = - 1
                \<and> g ! row ! (k + 1) = - 1 \<and> g ! row ! (k + 2) = - 1)
          \<or> (\<exists>k\<in>{row - 2..row}. k + 2 < ROWS \<and> g ! k ! col = - 1
                \<and> g ! (k + 1) ! col = - 1 \<and> g ! (k + 2) ! col = - 1)"
    if "g ! row ! col = - 1"
    using run
  proof
    assume "in_row_run g row col"
    then obtain k where "k \<in> {col - 2..col}" "row_triple g row k" "g ! row ! k = g ! row ! col"
      by (auto simp add: in_row_run_def)
    with that have "k \<in> {col - 2..col} \<and> k + 2 < COLS \<and> g ! row ! k = - 1
                \<and> g ! row ! (k + 1) = - 1 \<and> g ! row ! (k + 2) = - 1"
      by (simp add: row_triple_def)
    then show ?thesis by blast
  next
    assume "in_col_run g row col"
    then obtain k where "k \<in> {row - 2..row}" "col_triple g k col" "g ! k ! col = g ! row ! col"
      by (auto simp add: in_col_run_def)
    with that have "k \<in> {row - 2..row} \<and> k + 2 < ROWS \<and> g ! k ! col = - 1
                \<and> g ! (k + 1) ! col = - 1 \<and> g ! (k + 2) ! col = - 1"
      by (simp add: col_triple_def)
    then show ?thesis by blast
  qed
  moreover have "g ! row ! col \<noteq> - 1" if "wf_grid g \<and> no_empty g"
  proof -
    from that have "\<forall>r<ROWS. \<forall>c<COLS. g ! r ! c \<noteq> - 1"
      using no_empty_iff [of g] by simp
    with b show ?thesis by simp
  qed
  ultimately show ?thesis
    using b run by blast
qed

text \<open>
  On the board with holes the match list holds \<open>(0, 0)\<close>, which lies in the window of
  three equal cells that starts there.
\<close>

theorem matched_cells_lie_in_runs_witness:
  "(0, 0) \<in> set (findAllMatches holed_grid)
   \<and> (0 :: nat) < ROWS \<and> (0 :: nat) < COLS
   \<and> (in_row_run holed_grid 0 0 \<or> in_col_run holed_grid 0 0)"
proof -
  have m: "(0, 0) \<in> set (findAllMatches holed_grid)" by code_simp
  from matched_cells_lie_in_runs [OF m] have "(0 :: nat) < ROWS \<and> (0 :: nat) < COLS
      \<and> (in_row_run holed_grid 0 0 \<or> in_col_run holed_grid 0 0)"
    by (elim conjE) (intro conjI)
  with m show ?thesis by (rule conjI)
qed

text \<open>
  The claim as stated fails on that board: its three empty cells at the start of row 0
  are the match list.
\<close>

theorem empty_cells_match_counterexample:
  "findAllMatches holed_grid = [(0, 0), (0, 1), (0, 2)]
   \<and> holed_grid ! 0 ! 0 = - 1 \<and> holed_grid ! 0 ! 1 = - 1 \<and> holed_grid ! 0 ! 2 = - 1"
  by code_simp

section \<open>The move oracle\<close>

text \<open>
  C8. On a well-formed board, \<^verbatim>\<open>hasValidMoves\<close> returns true exactly when
  \<^verbatim>\<open>findValidMove\<close> returns a move; the move returned is the first candidate, in
  row-major order of the cells and with the right neighbour before the bottom neighbour,
  whose swap produces a match; and both functions leave the grid as they found it.
\<close>

theorem move_oracle_agreement:
  assumes "wf_grid g"
  shows "fst (hasValidMoves g) = (fst (findValidMove g) \<noteq> None)
       \<and> fst (findValidMove g) = find (produces_match g) scan_candidates
       \<and> snd (hasValidMoves g) = g \<and> snd (findValidMove g) = g"
proof -
  have "fst (findValidMove g) = find (produces_match g) scan_candidates"
    using findValidMove_from_find [OF assms, of 0 0]
    by (simp add: findValidMove_def candidates_from_start)
  moreover have "fst (hasValidMoves g) = (find (produces_match g) scan_candidates \<noteq> None)"
    using hasValidMoves_from_find [OF assms, of 0 0]
    by (simp add: hasValidMoves_def candidates_from_start)
  moreover have "snd (hasValidMoves g) = g"
    using assms by (rule snd_hasValidMoves)
  moreover have "snd (findValidMove g) = g"
    using assms by (simp add: findValidMove_def snd_findValidMove_from)
  ultimately show ?thesis
    by simp
qed

text \<open>
  On the example board the first four candidates produce no match and the fifth, \<open>(0, 2)\<close>
  with its right neighbour \<open>(0, 3)\<close>, does.
\<close>

theorem move_oracle_agreement_witness:
  "fst (hasValidMoves example_grid)
   \<and> fst (findValidMove example_grid) = Some ((0, 2), (0, 3))
   \<and> find (produces_match example_grid) scan_candidates = Some ((0, 2), (0, 3))
   \<and> take 5 scan_candidates
       = [((0, 0), (0, 1)), ((0, 0), (1, 0)), ((0, 1), (0, 2)), ((0, 1), (1, 1)),
          ((0, 2), (0, 3))]
   \<and> snd (hasValidMoves example_grid) = example_grid
   \<and> snd (findValidMove example_grid) = example_grid"
proof -
  have wf: "wf_grid example_grid" by code_simp
  have f: "find (produces_match example_grid) scan_candidates = Some ((0, 2), (0, 3))"
    by code_simp
  have c: "take 5 scan_candidates
       = [((0, 0), (0, 1)), ((0, 0), (1, 0)), ((0, 1), (0, 2)), ((0, 1), (1, 1)),
          ((0, 2), (0, 3))]"
    by code_simp
  from move_oracle_agreement [OF wf] f c show ?thesis
    by simp
qed

end
